theory Spec2Isabelle
  imports Complex_Main
begin

section \<open>The loss module \<open>ovotools/pytorch_tools.py\<close>\<close>

text \<open>
  The module defines the class \<open>MarginBaseLoss\<close>: a cross-entropy term over class logits
  (\<open>l2_loss\<close>), a margin-based term over pairs of embeddings chosen by distance-weighted
  sampling (\<open>mb_loss\<close>), and their sum (\<open>loss\<close>).

  Modelling conventions.
  \<^item> Tensor and array entries are real numbers: the arithmetic of the numeric library is
    taken as exact. The two places where the library divides by a number that can be zero
    are written out (\<open>np_divide\<close>, and the mean of \<open>CrossEntropyLoss\<close>, whose result
    can be \<open>NaN\<close>).
  \<^item> A Python exception is a value of type \<open>error\<close>; a method is a function from the
    state to a result (or an error) and the new state, so that what a raising call has
    already stored stays stored.
  \<^item> The state is the attributes of \<open>self\<close>, with the standard output of the process
    (the constructor prints to it). An attribute that \<open>__init__\<close> does not assign is
    \<open>None\<close> until a method assigns it; reading it before raises \<open>AttributeError\<close>.
  \<^item> The numbers that \<open>np.random\<close> draws during one call are an argument
    \<open>u :: nat \<Rightarrow> real\<close> of the call: \<open>u m\<close> is the \<open>m\<close>-th uniform draw from \<open>[0, 1)\<close>.
\<close>

subsection \<open>Errors and values\<close>

text \<open>\<open>AssertionError\<close> carries the message of the \<open>assert\<close> statement, here a tensor shape.\<close>

datatype error =
    AssertionError "nat list option"
  | IndexError
  | ValueError
  | TypeError
  | ZeroDivisionError
  | AttributeError
  | RuntimeError

text \<open>
  Sequencing: \<open>attempt r f\<close> goes on with the value of \<open>r\<close>, or leaves with its exception;
  \<open>attempt_in self r f\<close> does the same in a method, where an exception leaves with the
  state \<open>self\<close> reached so far.
\<close>

definition attempt :: "error + 'a \<Rightarrow> ('a \<Rightarrow> error + 'b) \<Rightarrow> error + 'b" where
  "attempt r f = (case r of Inl e \<Rightarrow> Inl e | Inr v \<Rightarrow> f v)"

definition attempt_in :: "'s \<Rightarrow> error + 'a \<Rightarrow> ('a \<Rightarrow> (error + 'b) \<times> 's) \<Rightarrow> (error + 'b) \<times> 's" where
  "attempt_in self r f = (case r of Inl e \<Rightarrow> (Inl e, self) | Inr v \<Rightarrow> f v)"

text \<open>Reading an attribute: one that was never assigned raises.\<close>

definition read_attr :: "'a option \<Rightarrow> error + 'a" where
  "read_attr a = (case a of None \<Rightarrow> Inl AttributeError | Some v \<Rightarrow> Inr v)"

definition get_attr :: "'a option \<Rightarrow> 's \<Rightarrow> (error + 'a) \<times> 's" where
  "get_attr a self = (read_attr a, self)"

text \<open>A scalar that the library may return as not-a-number.\<close>

datatype tval = NaN | Fin real

fun tadd :: "tval \<Rightarrow> tval \<Rightarrow> tval" where
  "tadd (Fin a) (Fin b) = Fin (a + b)"
| "tadd _ _ = NaN"

text \<open>An argument of \<open>print\<close>.\<close>

datatype pyval = PStr string | PInt int

subsection \<open>Tensors\<close>

text \<open>A tensor is its shape and its entries in row-major order.\<close>

datatype tensor = Tensor (shape: "nat list") (elems: "real list")

definition wf_tensor :: "tensor \<Rightarrow> bool" where
  "wf_tensor t \<longleftrightarrow> length (elems t) = prod_list (shape t)"

text \<open>The two-dimensional tensor with \<open>n\<close> rows, \<open>m\<close> columns and entry \<open>f i j\<close>.\<close>

definition tensor2 :: "nat \<Rightarrow> nat \<Rightarrow> (nat \<Rightarrow> nat \<Rightarrow> real) \<Rightarrow> tensor" where
  "tensor2 n m f = Tensor [n, m] (concat (map (\<lambda>i. map (f i) [0..<m]) [0..<n]))"

text \<open>Entry \<open>(i, j)\<close> of a two-dimensional tensor, and the same with Python's bounds check.\<close>

definition item2 :: "tensor \<Rightarrow> nat \<Rightarrow> nat \<Rightarrow> real" where
  "item2 t i j = elems t ! (i * (shape t ! 1) + j)"

definition get_item2 :: "tensor \<Rightarrow> nat \<Rightarrow> nat \<Rightarrow> error + real" where
  "get_item2 t i j =
     (case shape t of
        [n, m] \<Rightarrow> if i < n \<and> j < m then Inr (item2 t i j) else Inl IndexError
      | _ \<Rightarrow> Inl IndexError)"

text \<open>\<open>t[i, :]\<close>: row \<open>i\<close> of a two-dimensional tensor.\<close>

definition get_row :: "tensor \<Rightarrow> nat \<Rightarrow> error + real list" where
  "get_row t i =
     (case shape t of
        [n, m] \<Rightarrow> if i < n then Inr (take m (drop (i * m) (elems t))) else Inl IndexError
      | _ \<Rightarrow> Inl IndexError)"

text \<open>An elementwise operation: \<open>t ** 2\<close>, \<open>2.0 * t\<close>, \<open>torch.clamp\<close>, \<open>torch.sqrt\<close>.\<close>

definition tmap :: "(real \<Rightarrow> real) \<Rightarrow> tensor \<Rightarrow> tensor" where
  "tmap f t = Tensor (shape t) (map f (elems t))"

text \<open>\<open>t.sum(1)\<close> of a two-dimensional tensor; a tensor with fewer dimensions has no
  dimension 1.\<close>

definition sum_dim1 :: "tensor \<Rightarrow> error + tensor" where
  "sum_dim1 t =
     (case shape t of
        [n, m] \<Rightarrow> Inr (Tensor [n] (map (\<lambda>i. \<Sum>c\<leftarrow>[0..<m]. item2 t i c) [0..<n]))
      | _ \<Rightarrow> Inl IndexError)"

text \<open>\<open>t.view(-1, 1)\<close> and \<open>t.view(1, -1)\<close>: the same entries as one column or one row.\<close>

definition view_col :: "tensor \<Rightarrow> tensor" where
  "view_col t = Tensor [length (elems t), 1] (elems t)"

definition view_row :: "tensor \<Rightarrow> tensor" where
  "view_row t = Tensor [1, length (elems t)] (elems t)"

text \<open>\<open>torch.transpose(t, 0, 1)\<close> and \<open>torch.mm(a, b)\<close> of two-dimensional tensors.\<close>

definition transpose01 :: "tensor \<Rightarrow> error + tensor" where
  "transpose01 t =
     (case shape t of
        [n, m] \<Rightarrow> Inr (tensor2 m n (\<lambda>i j. item2 t j i))
      | _ \<Rightarrow> Inl IndexError)"

definition mm :: "tensor \<Rightarrow> tensor \<Rightarrow> error + tensor" where
  "mm a b =
     (case (shape a, shape b) of
        ([n, k], [k', m]) \<Rightarrow>
          if k = k' then Inr (tensor2 n m (\<lambda>i j. \<Sum>c\<leftarrow>[0..<k]. item2 a i c * item2 b c j))
          else Inl RuntimeError
      | _ \<Rightarrow> Inl RuntimeError)"

text \<open>A binary operation with broadcasting, on two-dimensional tensors: two sizes of a
  dimension are compatible when they are equal or one of them is 1.\<close>

definition bdim :: "nat \<Rightarrow> nat \<Rightarrow> nat option" where
  "bdim a b = (if a = b then Some a else if a = 1 then Some b else if b = 1 then Some a else None)"

definition broadcast2 :: "(real \<Rightarrow> real \<Rightarrow> real) \<Rightarrow> tensor \<Rightarrow> tensor \<Rightarrow> error + tensor" where
  "broadcast2 f a b =
     (case (shape a, shape b) of
        ([n1, m1], [n2, m2]) \<Rightarrow>
          (case (bdim n1 n2, bdim m1 m2) of
             (Some n, Some m) \<Rightarrow>
               Inr (tensor2 n m (\<lambda>i j.
                 f (item2 a (if n1 = 1 then 0 else i) (if m1 = 1 then 0 else j))
                   (item2 b (if n2 = 1 then 0 else i) (if m2 = 1 then 0 else j))))
           | _ \<Rightarrow> Inl RuntimeError)
      | _ \<Rightarrow> Inl RuntimeError)"

subsection \<open>The object and its collaborators\<close>

text \<open>
  The model object is supplied by the caller; the code reads its attributes
  \<open>mb_loss_alpha\<close> and \<open>mb_loss_beta\<close> only. The record is extensible: whatever else a
  model object holds is its \<open>more\<close> part. The expression \<open>loss[0]\<close> of \<open>mb_loss\<close> indexes
  a sum of terms \<open>alpha + (d - beta)\<close>, so both parameters are tensors of one entry.
\<close>

record model =
  mb_loss_alpha :: real
  mb_loss_beta :: real

text \<open>\<open>params.data.samples_per_class\<close> and \<open>params.distance_weighted_sampling.lambda_\<close>
  (a name cannot end with an underscore here).\<close>

record data_params =
  samples_per_class :: nat

record dws_params =
  lambda_param :: real

record params =
  data :: data_params
  distance_weighted_sampling :: dws_params

text \<open>A timer only measures time: \<open>watch\<close> returns a context manager that changes nothing
  of the state and lets exceptions through, as \<open>DummyTimer.TimerWatch\<close> does.\<close>

datatype timer = DummyTimer | ExternalTimer nat

record 'm state =
  model :: "'m model_scheme"
  device :: string
  params :: params
  classes :: "int list"
  classes_dict :: "int \<rightharpoonup> nat"
  lambda_rev :: real
  timer :: timer
  l2_loss_val :: "tval option"
  mb_loss_val :: "real option"
  d_ij :: "tensor option"
  true_pos :: "real option"
  true_neg :: "real option"
  false_pos :: "real option"
  false_neg :: "real option"
  loss_val :: "tval option"
  stdout :: "pyval list list"

definition ignore_index :: int where
  "ignore_index = -100"

text \<open>\<open>{v: i for i, v in enumerate(cs)}\<close>: a later pair replaces an earlier one with the
  same key.\<close>

definition enumerate_dict :: "int list \<Rightarrow> (int \<rightharpoonup> nat)" where
  "enumerate_dict cs = fold (\<lambda>(i, v) m. m(v \<mapsto> i)) (enumerate 0 cs) Map.empty"

text \<open>\<open>__init__\<close>. The assertion comes first, the division may raise, and the line is
  printed last. \<open>out\<close> is the standard output before the call.\<close>

definition init ::
  "'m model_scheme \<Rightarrow> int list \<Rightarrow> string \<Rightarrow> params \<Rightarrow> pyval list list
     \<Rightarrow> error + 'm state" where
  "init mdl cls dev ps out =
     (if \<not> samples_per_class (data ps) \<ge> 2 then Inl (AssertionError None)
      else if lambda_param (distance_weighted_sampling ps) = 0 then Inl ZeroDivisionError
      else Inr \<lparr> model = mdl, device = dev, params = ps,
                 classes = sort cls,
                 classes_dict = enumerate_dict (sort cls),
                 lambda_rev = 1 / lambda_param (distance_weighted_sampling ps),
                 timer = DummyTimer,
                 l2_loss_val = None, mb_loss_val = None, d_ij = None,
                 true_pos = None, true_neg = None, false_pos = None, false_neg = None,
                 loss_val = None,
                 stdout = out @ [[PStr ''classes: '', PInt (int (length (sort cls)))]] \<rparr>)"

definition set_timer :: "timer \<Rightarrow> 'm state \<Rightarrow> (error + unit) \<times> 'm state" where
  "set_timer tm self = (Inr (), self\<lparr>timer := tm\<rparr>)"

subsection \<open>The classification term\<close>

text \<open>
  \<open>int(x)\<close> of a float truncates towards zero. A label is a number, as every entry of a
  tensor here: \<open>int\<close> of \<open>nan\<close> or of an infinity, which raises, is not covered.
\<close>

definition py_int :: "real \<Rightarrow> int" where
  "py_int x = (if x \<ge> 0 then \<lfloor>x\<rfloor> else \<lceil>x\<rceil>)"

definition classes_to_ids :: "'m state \<Rightarrow> real list \<Rightarrow> int \<Rightarrow> int list" where
  "classes_to_ids self y_class ign =
     map (\<lambda>c. case classes_dict self (py_int c) of None \<Rightarrow> ign | Some i \<Rightarrow> int i) y_class"

text \<open>
  \<open>torch.nn.CrossEntropyLoss(ignore_index)(input, target)\<close> with the default mean
  reduction and a one-dimensional target: the input has one row of logits per target, a
  target other than \<open>ignore_index\<close> is a column number, and the result is the mean over
  the targets that are not ignored of \<open>log (\<Sum>c. exp x[i, c]) - x[i, target[i]]\<close>. With
  nothing to average the library divides zero by zero. The target is given as the list from
  which \<open>torch.tensor\<close> makes it: of a list of integers it makes a tensor of integers, but
  of the empty list a tensor of floats, which the loss rejects as a target.
\<close>

definition nll :: "tensor \<Rightarrow> nat \<Rightarrow> nat \<Rightarrow> real" where
  "nll x i t = ln (\<Sum>c\<leftarrow>[0..<shape x ! 1]. exp (item2 x i c)) - item2 x i t"

definition cross_entropy :: "int \<Rightarrow> tensor \<Rightarrow> int list \<Rightarrow> error + tval" where
  "cross_entropy ign x target =
     (case shape x of
        [n, c] \<Rightarrow>
          if length target \<noteq> n then Inl ValueError
          else if target = [] then Inl RuntimeError
          else if \<exists>t\<in>set target. t \<noteq> ign \<and> (t < 0 \<or> int c \<le> t) then Inl IndexError
          else
            let kept = filter (\<lambda>(i, t). t \<noteq> ign) (zip [0..<n] target)
            in Inr (if kept = [] then NaN
                    else Fin ((\<Sum>(i, t)\<leftarrow>kept. nll x i (nat t)) / real (length kept)))
      | _ \<Rightarrow> Inl RuntimeError)"

definition l2_loss ::
  "tensor \<times> tensor \<Rightarrow> real list \<Rightarrow> 'm state \<Rightarrow> (error + tval) \<times> 'm state" where
  "l2_loss net_output y_class self =
     (let pred_class = fst net_output;
          class_nos = classes_to_ids self y_class ignore_index
      in attempt_in self (cross_entropy ignore_index pred_class class_nos)
           (\<lambda>v. (Inr v, self\<lparr>l2_loss_val := Some v\<rparr>)))"

definition last_l2_loss ::
  "tensor \<times> tensor \<Rightarrow> real list \<Rightarrow> 'm state \<Rightarrow> (error + tval) \<times> 'm state" where
  "last_l2_loss net_output y_class self = get_attr (l2_loss_val self) self"

subsection \<open>Weighted sampling\<close>

text \<open>
  \<open>w / np.sum(w)\<close> on an array: dividing by zero raises nothing, it gives an array of
  \<open>nan\<close> and \<open>inf\<close> (\<open>None\<close> here), unless the array is empty.
\<close>

definition np_divide :: "real list \<Rightarrow> real \<Rightarrow> real list option" where
  "np_divide w s = (if s = 0 \<and> w \<noteq> [] then None else Some (map (\<lambda>x. x / s) w))"

definition cumsum :: "real list \<Rightarrow> real list" where
  "cumsum p = map (\<lambda>k. sum_list (take (Suc k) p)) [0..<length p]"

text \<open>\<open>cdf.searchsorted(x, side='right')\<close> on a nondecreasing array: the first position
  whose entry is greater than \<open>x\<close>.\<close>

definition searchsorted_right :: "real list \<Rightarrow> real \<Rightarrow> nat" where
  "searchsorted_right cdf x = length (takeWhile (\<lambda>c. c \<le> x) cdf)"

text \<open>The tolerance of the check that the probabilities sum to 1: the square root of the
  machine epsilon of a double.\<close>

definition atol :: real where
  "atol = 1 / 2 ^ 26"

text \<open>
  \<open>np.random.choice(a, p=p, replace=False)\<close> for one sample: every rejected argument is
  a \<open>ValueError\<close>; then the cumulative sums of \<open>p\<close> are divided by the last one and the
  uniform draw \<open>x\<close> is located among them.
\<close>

definition random_choice :: "nat list \<Rightarrow> real list option \<Rightarrow> real \<Rightarrow> error + nat" where
  "random_choice a p x =
     (if a = [] then Inl ValueError
      else case p of
        None \<Rightarrow> Inl ValueError
      | Some p \<Rightarrow>
          if length p \<noteq> length a then Inl ValueError
          else if \<exists>q\<in>set p. q < 0 then Inl ValueError
          else if \<bar>sum_list p - 1\<bar> > atol then Inl ValueError
          else
            let cdf = cumsum p;
                cdf = map (\<lambda>c. c / last cdf) cdf;
                idx = searchsorted_right cdf x
            in if idx < length a then Inr (a ! idx) else Inl IndexError)"

text \<open>\<open>w[i] = v\<close>, \<open>w[lo: hi]\<close> and \<open>np.delete(w, np.s_[lo: hi])\<close> on a one-dimensional
  array; a slice is cut to the array.\<close>

definition set_item :: "real list \<Rightarrow> nat \<Rightarrow> real \<Rightarrow> error + real list" where
  "set_item w i v = (if i < length w then Inr (w[i := v]) else Inl IndexError)"

definition slice :: "'a list \<Rightarrow> nat \<Rightarrow> nat \<Rightarrow> 'a list" where
  "slice w lo hi = take (hi - lo) (drop lo w)"

definition np_delete :: "'a list \<Rightarrow> nat \<Rightarrow> nat \<Rightarrow> 'a list" where
  "np_delete w lo hi = (if lo < hi then take lo w @ drop hi w else w)"

text \<open>\<open>range(start, stop, step)\<close> for a positive step; \<open>range\<close> rejects a step of 0.\<close>

definition range_step :: "nat \<Rightarrow> nat \<Rightarrow> nat \<Rightarrow> error + nat list" where
  "range_step start stop step =
     (if step = 0 then Inl ValueError
      else Inr (map (\<lambda>q. start + q * step) [0..<(stop - start + step - 1) div step]))"

text \<open>A \<open>for\<close> loop over a list with a local accumulator, left by the first exception.\<close>

fun for_loop ::
  "nat list \<Rightarrow> (nat \<Rightarrow> 'a \<Rightarrow> 's \<Rightarrow> (error + 'a) \<times> 's) \<Rightarrow> 'a \<Rightarrow> 's \<Rightarrow> (error + 'a) \<times> 's" where
  "for_loop [] body acc s = (Inr acc, s)"
| "for_loop (x # xs) body acc s =
     (case body x acc s of
        (Inl e, s') \<Rightarrow> (Inl e, s')
      | (Inr acc', s') \<Rightarrow> for_loop xs body acc' s')"

subsection \<open>The metric-learning term\<close>

definition sqrt2_const :: real where
  "sqrt2_const = 14142135623730951 / 10 ^ 16"

text \<open>Lines 74 and 75: the sampling weight of every distance of a row.\<close>

definition row_weights :: "real \<Rightarrow> nat \<Rightarrow> real list \<Rightarrow> real list" where
  "row_weights lam edim d =
     (let prob = map (\<lambda>x. exp (- ((x - sqrt2_const) ^ 2) * real edim)) d
      in map (\<lambda>p. 1 / max p lam) prob)"

text \<open>
  Lines 73 to 87, the part of an iteration that reads the object and changes nothing:
  the two draws and the two hinge terms. It returns the new value of \<open>loss\<close> with the
  locals \<open>d\<close>, \<open>j\<close> and \<open>k\<close>. Iteration \<open>i\<close> is the \<open>(i + 1)\<close>-th of the call and each
  iteration draws twice, so its draws are \<open>u (2 * i)\<close> and \<open>u (2 * i + 1)\<close>.
\<close>

definition sample_pair ::
  "(nat \<Rightarrow> real) \<Rightarrow> nat \<Rightarrow> nat \<Rightarrow> nat \<Rightarrow> real \<Rightarrow> real \<Rightarrow> real \<Rightarrow> tensor \<Rightarrow> nat \<Rightarrow> nat \<Rightarrow> real
     \<Rightarrow> error + (real \<times> real list \<times> nat \<times> nat)" where
  "sample_pair u n edim spc lam alpha beta dm i_start i loss =
     (let i_end = i_start + spc in
      attempt (get_row dm i) (\<lambda>d.
      attempt (set_item (row_weights lam edim d) i 0) (\<lambda>weights.
      let weights_same = slice weights i_start i_end in
      attempt (random_choice [i_start..<i_end]
                 (np_divide weights_same (sum_list weights_same)) (u (2 * i))) (\<lambda>j.
      if \<not> j \<noteq> i then Inl (AssertionError None) else
      attempt (get_item2 dm i j) (\<lambda>dij.
      let loss = loss + max (alpha + (dij - beta)) 0;
          weights = np_delete weights i_start i_end in
      attempt (random_choice [0..<n - spc]
                 (np_divide weights (sum_list weights)) (u (2 * i + 1))) (\<lambda>k.
      let k = (if k \<ge> i_start then k + spc else k) in
      attempt (get_item2 dm i k) (\<lambda>dik.
      let loss = loss + max (alpha - (dik - beta)) 0
      in Inr (loss, d, j, k))))))))"

text \<open>\<open>self.attr += v\<close>.\<close>

definition add_attr :: "real option \<Rightarrow> real \<Rightarrow> error + real" where
  "add_attr a v = (case a of None \<Rightarrow> Inl AttributeError | Some x \<Rightarrow> Inr (x + v))"

text \<open>Lines 88 to 98: the running mean and the four counters. \<open>sum\<close> is Python's, over
  the entries of a slice.\<close>

definition record_pair ::
  "nat \<Rightarrow> nat \<Rightarrow> nat \<Rightarrow> real \<Rightarrow> real list \<Rightarrow> 'm state \<Rightarrow> (error + real) \<times> 'm state" where
  "record_pair n i_start i_end loss d self =
     (let self = self\<lparr>mb_loss_val := Some (loss / real n)\<rparr>;
          beta = mb_loss_beta (model self);
          negative = map (\<lambda>x. if x > beta then 1 else 0) d;
          positive = map (\<lambda>x. if x \<le> beta then 1 else (0::real)) d;
          fn = sum_list (slice negative i_start i_end) in
      attempt_in self (add_attr (false_neg self) fn) (\<lambda>v.
      let self = self\<lparr>false_neg := Some v\<rparr>;
          tp = sum_list (slice positive i_start i_end) in
      attempt_in self (add_attr (true_pos self) tp) (\<lambda>v.
      let self = self\<lparr>true_pos := Some v\<rparr>;
          fp = sum_list (take i_start positive) + sum_list (drop i_end positive) in
      attempt_in self (add_attr (false_pos self) fp) (\<lambda>v.
      let self = self\<lparr>false_pos := Some v\<rparr>;
          fn = sum_list (take i_start negative) + sum_list (drop i_end negative) in
      attempt_in self (add_attr (true_neg self) fn) (\<lambda>v.
      (Inr loss, self\<lparr>true_neg := Some v\<rparr>))))))"

text \<open>One iteration of the inner loop.\<close>

definition loop_body ::
  "(nat \<Rightarrow> real) \<Rightarrow> nat \<Rightarrow> nat \<Rightarrow> nat \<Rightarrow> nat \<Rightarrow> real \<Rightarrow> 'm state \<Rightarrow> (error + real) \<times> 'm state" where
  "loop_body u n edim i_start i loss self =
     (let spc = samples_per_class (data (params self)) in
      attempt_in self (read_attr (d_ij self)) (\<lambda>dm.
      attempt_in self
        (sample_pair u n edim spc (lambda_rev self)
           (mb_loss_alpha (model self)) (mb_loss_beta (model self)) dm i_start i loss)
        (\<lambda>(loss, d, j, k). record_pair n i_start (i_start + spc) loss d self)))"

text \<open>Line 67: the matrix of squared distances.\<close>

definition squared_distances :: "tensor \<Rightarrow> error + tensor" where
  "squared_distances pred_embeddings =
     attempt (sum_dim1 (tmap (\<lambda>x. x ^ 2) pred_embeddings)) (\<lambda>norm.
     attempt (broadcast2 (+) (view_col norm) (view_row norm)) (\<lambda>s.
     attempt (transpose01 pred_embeddings) (\<lambda>pt.
     attempt (mm pred_embeddings pt) (\<lambda>g.
     broadcast2 (-) s (tmap (\<lambda>x. 2 * x) g)))))"

text \<open>Line 68.\<close>

definition clamp_sqrt :: "tensor \<Rightarrow> tensor" where
  "clamp_sqrt t = tmap sqrt (tmap (\<lambda>x. x + 1 / 10 ^ 8) (tmap (\<lambda>x. max x 0) t))"

text \<open>\<open>self.attr /= n\<close>; \<open>mb_loss\<close> gets there with \<open>n \<ge> 1\<close> only.\<close>

definition div_attr :: "real option \<Rightarrow> nat \<Rightarrow> error + real" where
  "div_attr a n =
     (case a of None \<Rightarrow> Inl AttributeError
      | Some x \<Rightarrow> if n = 0 then Inl ZeroDivisionError else Inr (x / real n))"

text \<open>Lines 99 to 103.\<close>

definition finish_counters :: "nat \<Rightarrow> 'm state \<Rightarrow> (error + real) \<times> 'm state" where
  "finish_counters n self =
     attempt_in self (div_attr (true_pos self) n) (\<lambda>v.
     let self = self\<lparr>true_pos := Some v\<rparr> in
     attempt_in self (div_attr (true_neg self) n) (\<lambda>v.
     let self = self\<lparr>true_neg := Some v\<rparr> in
     attempt_in self (div_attr (false_pos self) n) (\<lambda>v.
     let self = self\<lparr>false_pos := Some v\<rparr> in
     attempt_in self (div_attr (false_neg self) n) (\<lambda>v.
     let self = self\<lparr>false_neg := Some v\<rparr> in
     get_attr (mb_loss_val self) self))))"

text \<open>The nested loops of lines 70 to 98, over the class blocks and over the samples of
  a block.\<close>

definition pair_loops ::
  "(nat \<Rightarrow> real) \<Rightarrow> nat \<Rightarrow> nat \<Rightarrow> nat \<Rightarrow> nat list \<Rightarrow> 'm state \<Rightarrow> (error + real) \<times> 'm state" where
  "pair_loops u n edim spc starts self =
     for_loop starts
       (\<lambda>i_start. for_loop [i_start..<i_start + spc] (loop_body u n edim i_start)) 0 self"

text \<open>
  \<open>mb_loss\<close>. \<open>len\<close> of a tensor without dimensions is a \<open>TypeError\<close>;
  \<open>pred_embeddings[0].shape[0]\<close> (the local \<open>dim\<close>, here \<open>edim\<close>) is an \<open>IndexError\<close>
  when there is no row 0 or when a row has no dimension; the counters are reset before
  the shape is asserted.
\<close>

definition mb_loss ::
  "(nat \<Rightarrow> real) \<Rightarrow> tensor \<times> tensor \<Rightarrow> real list \<Rightarrow> 'm state \<Rightarrow> (error + real) \<times> 'm state" where
  "mb_loss u net_output y_class self =
     (let pred_embeddings = snd net_output in
      if shape pred_embeddings = [] then (Inl TypeError, self) else
      let n = hd (shape pred_embeddings) in
      if n = 0 \<or> tl (shape pred_embeddings) = [] then (Inl IndexError, self) else
      let edim = shape pred_embeddings ! 1;
          self = self\<lparr>true_pos := Some 0, true_neg := Some 0,
                       false_pos := Some 0, false_neg := Some 0\<rparr> in
      if \<not> length (shape pred_embeddings) = 2
      then (Inl (AssertionError (Some (shape pred_embeddings))), self) else
      attempt_in self (squared_distances pred_embeddings) (\<lambda>sq.
      let self = self\<lparr>d_ij := Some sq\<rparr>;
          self = self\<lparr>d_ij := Some (clamp_sqrt sq)\<rparr>;
          spc = samples_per_class (data (params self)) in
      attempt_in self (range_step 0 n spc) (\<lambda>starts.
      case pair_loops u n edim spc starts self of
        (Inl e, self) \<Rightarrow> (Inl e, self)
      | (Inr loss, self) \<Rightarrow> finish_counters n self)))"

definition last_mb_loss ::
  "tensor \<times> tensor \<Rightarrow> real list \<Rightarrow> 'm state \<Rightarrow> (error + real) \<times> 'm state" where
  "last_mb_loss net_output y_class self = get_attr (mb_loss_val self) self"

definition last_false_pos ::
  "tensor \<times> tensor \<Rightarrow> real list \<Rightarrow> 'm state \<Rightarrow> (error + real) \<times> 'm state" where
  "last_false_pos net_output y_class self = get_attr (false_pos self) self"

definition last_false_neg ::
  "tensor \<times> tensor \<Rightarrow> real list \<Rightarrow> 'm state \<Rightarrow> (error + real) \<times> 'm state" where
  "last_false_neg net_output y_class self = get_attr (false_neg self) self"

definition last_true_pos ::
  "tensor \<times> tensor \<Rightarrow> real list \<Rightarrow> 'm state \<Rightarrow> (error + real) \<times> 'm state" where
  "last_true_pos net_output y_class self = get_attr (true_pos self) self"

definition last_true_neg ::
  "tensor \<times> tensor \<Rightarrow> real list \<Rightarrow> 'm state \<Rightarrow> (error + real) \<times> 'm state" where
  "last_true_neg net_output y_class self = get_attr (true_neg self) self"

subsection \<open>The global random generator\<close>

text \<open>
  \<open>np.random.choice\<close> draws from the global generator of numpy, which is no attribute of
  the object and no argument of a method. Here the generator is the stream of the uniform
  draws to come: a draw takes the first of them and leaves the rest. The methods that draw
  are written once more on the pair of the object and the generator, line by line as
  above, so that what a call leaves of the generator can be stated.
\<close>

definition advance :: "nat \<Rightarrow> (nat \<Rightarrow> real) \<Rightarrow> (nat \<Rightarrow> real)" where
  "advance k g = (\<lambda>m. g (k + m))"

text \<open>Sequencing on a state: \<open>and_then r f\<close> goes on from the value and the state of
  \<open>r\<close>, or leaves with its exception and its state. \<open>in_object\<close> and \<open>in_generator\<close> run a
  step that touches one of the two components.\<close>

definition and_then ::
  "(error + 'a) \<times> 's \<Rightarrow> ('a \<Rightarrow> 's \<Rightarrow> (error + 'b) \<times> 's) \<Rightarrow> (error + 'b) \<times> 's" where
  "and_then r f = (case r of (Inl e, s) \<Rightarrow> (Inl e, s) | (Inr v, s) \<Rightarrow> f v s)"

definition in_object :: "('s \<Rightarrow> 'r \<times> 's) \<Rightarrow> 's \<times> 'g \<Rightarrow> 'r \<times> 's \<times> 'g" where
  "in_object f w = (case f (fst w) of (r, s) \<Rightarrow> (r, s, snd w))"

definition in_generator :: "('g \<Rightarrow> 'r \<times> 'g) \<Rightarrow> 's \<times> 'g \<Rightarrow> 'r \<times> 's \<times> 'g" where
  "in_generator f w = (case f (snd w) of (r, g) \<Rightarrow> (r, fst w, g))"

text \<open>\<open>np.random.choice\<close> on the generator: the arguments are checked before anything is
  drawn, and every \<open>ValueError\<close> of \<open>random_choice\<close> is a rejected argument.\<close>

definition choice_from ::
  "nat list \<Rightarrow> real list option \<Rightarrow> (nat \<Rightarrow> real) \<Rightarrow> (error + nat) \<times> (nat \<Rightarrow> real)" where
  "choice_from a p g =
     (case random_choice a p (g 0) of
        Inl ValueError \<Rightarrow> (Inl ValueError, g)
      | r \<Rightarrow> (r, advance 1 g))"

text \<open>Lines 73 to 87.\<close>

definition sample_pair_from ::
  "nat \<Rightarrow> nat \<Rightarrow> nat \<Rightarrow> real \<Rightarrow> real \<Rightarrow> real \<Rightarrow> tensor \<Rightarrow> nat \<Rightarrow> nat \<Rightarrow> real \<Rightarrow> (nat \<Rightarrow> real)
     \<Rightarrow> (error + (real \<times> real list \<times> nat \<times> nat)) \<times> (nat \<Rightarrow> real)" where
  "sample_pair_from n edim spc lam alpha beta dm i_start i loss g =
     (let i_end = i_start + spc in
      attempt_in g (get_row dm i) (\<lambda>d.
      attempt_in g (set_item (row_weights lam edim d) i 0) (\<lambda>weights.
      let weights_same = slice weights i_start i_end in
      and_then (choice_from [i_start..<i_end]
                  (np_divide weights_same (sum_list weights_same)) g) (\<lambda>j g.
      if \<not> j \<noteq> i then (Inl (AssertionError None), g) else
      attempt_in g (get_item2 dm i j) (\<lambda>dij.
      let loss = loss + max (alpha + (dij - beta)) 0;
          weights = np_delete weights i_start i_end in
      and_then (choice_from [0..<n - spc]
                  (np_divide weights (sum_list weights)) g) (\<lambda>k g.
      let k = (if k \<ge> i_start then k + spc else k) in
      attempt_in g (get_item2 dm i k) (\<lambda>dik.
      let loss = loss + max (alpha - (dik - beta)) 0
      in (Inr (loss, d, j, k), g))))))))"

text \<open>One iteration of the inner loop, the nested loops, and \<open>mb_loss\<close>.\<close>

definition loop_body_from ::
  "nat \<Rightarrow> nat \<Rightarrow> nat \<Rightarrow> nat \<Rightarrow> real \<Rightarrow> 'm state \<times> (nat \<Rightarrow> real)
     \<Rightarrow> (error + real) \<times> 'm state \<times> (nat \<Rightarrow> real)" where
  "loop_body_from n edim i_start i loss w =
     (let self = fst w;
          spc = samples_per_class (data (params self)) in
      attempt_in w (read_attr (d_ij self)) (\<lambda>dm.
      and_then
        (in_generator
           (sample_pair_from n edim spc (lambda_rev self)
              (mb_loss_alpha (model self)) (mb_loss_beta (model self)) dm i_start i loss) w)
        (\<lambda>(loss, d, j, k). in_object (record_pair n i_start (i_start + spc) loss d))))"

definition pair_loops_from ::
  "nat \<Rightarrow> nat \<Rightarrow> nat \<Rightarrow> nat list \<Rightarrow> 'm state \<times> (nat \<Rightarrow> real)
     \<Rightarrow> (error + real) \<times> 'm state \<times> (nat \<Rightarrow> real)" where
  "pair_loops_from n edim spc starts w =
     for_loop starts
       (\<lambda>i_start. for_loop [i_start..<i_start + spc] (loop_body_from n edim i_start)) 0 w"

definition mb_loss_from ::
  "tensor \<times> tensor \<Rightarrow> real list \<Rightarrow> 'm state \<times> (nat \<Rightarrow> real)
     \<Rightarrow> (error + real) \<times> 'm state \<times> (nat \<Rightarrow> real)" where
  "mb_loss_from net_output y_class w =
     (let pred_embeddings = snd net_output;
          self = fst w;
          g = snd w in
      if shape pred_embeddings = [] then (Inl TypeError, self, g) else
      let n = hd (shape pred_embeddings) in
      if n = 0 \<or> tl (shape pred_embeddings) = [] then (Inl IndexError, self, g) else
      let edim = shape pred_embeddings ! 1;
          self = self\<lparr>true_pos := Some 0, true_neg := Some 0,
                       false_pos := Some 0, false_neg := Some 0\<rparr> in
      if \<not> length (shape pred_embeddings) = 2
      then (Inl (AssertionError (Some (shape pred_embeddings))), self, g) else
      attempt_in (self, g) (squared_distances pred_embeddings) (\<lambda>sq.
      let self = self\<lparr>d_ij := Some sq\<rparr>;
          self = self\<lparr>d_ij := Some (clamp_sqrt sq)\<rparr>;
          spc = samples_per_class (data (params self)) in
      attempt_in (self, g) (range_step 0 n spc) (\<lambda>starts.
      and_then (pair_loops_from n edim spc starts (self, g))
        (\<lambda>loss. in_object (finish_counters n)))))"

subsection \<open>The composite loss\<close>

text \<open>\<open>loss\<close>: the left operand is evaluated first; an exception of either leaves
  \<open>loss_val\<close> as it was.\<close>

definition loss ::
  "(nat \<Rightarrow> real) \<Rightarrow> tensor \<times> tensor \<Rightarrow> real list \<Rightarrow> 'm state \<Rightarrow> (error + tval) \<times> 'm state" where
  "loss u net_output y_class self =
     (case l2_loss net_output y_class self of
        (Inl e, self) \<Rightarrow> (Inl e, self)
      | (Inr a, self) \<Rightarrow>
          (case mb_loss u net_output y_class self of
             (Inl e, self) \<Rightarrow> (Inl e, self)
           | (Inr b, self) \<Rightarrow>
               (let v = tadd a (Fin b) in (Inr v, self\<lparr>loss_val := Some v\<rparr>))))"

text \<open>\<open>loss\<close> on the pair of the object and the generator.\<close>

definition loss_from ::
  "tensor \<times> tensor \<Rightarrow> real list \<Rightarrow> 'm state \<times> (nat \<Rightarrow> real)
     \<Rightarrow> (error + tval) \<times> 'm state \<times> (nat \<Rightarrow> real)" where
  "loss_from net_output y_class w =
     and_then (in_object (l2_loss net_output y_class) w) (\<lambda>a w.
     and_then (mb_loss_from net_output y_class w) (\<lambda>b.
     in_object (\<lambda>self. let v = tadd a (Fin b) in (Inr v, self\<lparr>loss_val := Some v\<rparr>))))"

section \<open>Notions used in the statements and proofs\<close>

subsection \<open>Rows of a tensor\<close>

text \<open>The squared norm of row \<open>i\<close> and the inner product of rows \<open>i\<close> and \<open>j\<close>, as
  \<open>squared_distances\<close> computes them on the entries of the tensor.\<close>

definition row_norm2 :: "tensor \<Rightarrow> nat \<Rightarrow> real" where
  "row_norm2 t i = (\<Sum>c\<leftarrow>[0..<shape t ! 1]. (item2 t i c)\<^sup>2)"

definition row_dot :: "tensor \<Rightarrow> nat \<Rightarrow> nat \<Rightarrow> real" where
  "row_dot t i j = (\<Sum>c\<leftarrow>[0..<shape t ! 1]. item2 t i c * item2 t j c)"

text \<open>An entry of the distance matrix that lines 67 and 68 store.\<close>

definition dist_entry :: "tensor \<Rightarrow> nat \<Rightarrow> nat \<Rightarrow> real" where
  "dist_entry pe i j =
     sqrt (max (row_norm2 pe i + row_norm2 pe j - 2 * row_dot pe i j) 0 + 1 / 10 ^ 8)"

text \<open>The squared norm \<open>|v|\<^sup>2\<close> and the inner product \<open><v, w>\<close> of vectors, as the
  specification writes them.\<close>

definition sq_norm :: "real list \<Rightarrow> real" where
  "sq_norm v = (\<Sum>x\<leftarrow>v. x\<^sup>2)"

definition inner_prod :: "real list \<Rightarrow> real list \<Rightarrow> real" where
  "inner_prod v w = (\<Sum>(x, y)\<leftarrow>zip v w. x * y)"

subsection \<open>The loop\<close>

text \<open>The array \<open>weights\<close> of iteration \<open>i\<close> after line 76, when the distance matrix has
  the entries \<open>f\<close>.\<close>

definition wts :: "real \<Rightarrow> nat \<Rightarrow> nat \<Rightarrow> (nat \<Rightarrow> nat \<Rightarrow> real) \<Rightarrow> nat \<Rightarrow> real list" where
  "wts lam edim n f i = (row_weights lam edim (map (f i) [0..<n]))[i := 0]"

text \<open>The state without the five attributes that the sampling loop assigns.\<close>

definition rest_of :: "'m state \<Rightarrow> 'm state" where
  "rest_of s = s\<lparr>mb_loss_val := None, true_pos := None, true_neg := None,
                 false_pos := None, false_neg := None\<rparr>"

text \<open>The arrays \<open>negative\<close> and \<open>positive\<close> of lines 89 and 90, and the two hinge terms of
  sample \<open>i\<close> for the sampled indices \<open>J i\<close> and \<open>K i\<close>.\<close>

definition neg_ind :: "real \<Rightarrow> real list \<Rightarrow> real list" where
  "neg_ind beta d = map (\<lambda>x. if x > beta then 1 else 0) d"

definition pos_ind :: "real \<Rightarrow> real list \<Rightarrow> real list" where
  "pos_ind beta d = map (\<lambda>x. if x \<le> beta then 1 else 0) d"

definition hinge_terms ::
  "real \<Rightarrow> real \<Rightarrow> (nat \<Rightarrow> nat \<Rightarrow> real) \<Rightarrow> (nat \<Rightarrow> nat) \<Rightarrow> (nat \<Rightarrow> nat) \<Rightarrow> nat \<Rightarrow> real" where
  "hinge_terms alpha beta f J K i =
     max (alpha + (f i (J i) - beta)) 0 + max (alpha - (f i (K i) - beta)) 0"

text \<open>The four counters have been assigned.\<close>

definition counters_set :: "'m state \<Rightarrow> bool" where
  "counters_set s \<longleftrightarrow>
     false_neg s \<noteq> None \<and> true_pos s \<noteq> None \<and> false_pos s \<noteq> None \<and> true_neg s \<noteq> None"

text \<open>The state without anything that \<open>mb_loss\<close> assigns.\<close>

definition outside :: "'m state \<Rightarrow> 'm state" where
  "outside s = (rest_of s)\<lparr>d_ij := None\<rparr>"

text \<open>What only the constructor assigns, and the standard output.\<close>

definition kept ::
  "'m state \<Rightarrow> 'm model_scheme \<times> string \<times> params \<times> int list \<times> (int \<rightharpoonup> nat) \<times> real \<times> pyval list list" where
  "kept s = (model s, device s, params s, classes s, classes_dict s, lambda_rev s, stdout s)"

subsection \<open>Two objects side by side\<close>

text \<open>
  The two objects may hold models of different kinds. \<open>same_settings\<close>: they agree on what
  the loss reads of the constructor's arguments. \<open>agree b\<close>: they also agree on what the
  sampling loop reads and assigns, and, when \<open>b\<close> holds, on \<open>mb_loss_val\<close>.
  \<open>same_apart_from_model\<close>: they agree on every attribute other than \<open>model\<close>, and on the
  standard output.
\<close>

definition same_settings :: "'a state \<Rightarrow> 'b state \<Rightarrow> bool" where
  "same_settings s t \<longleftrightarrow>
     params s = params t \<and> lambda_rev s = lambda_rev t \<and>
     classes_dict s = classes_dict t \<and>
     mb_loss_alpha (model s) = mb_loss_alpha (model t) \<and>
     mb_loss_beta (model s) = mb_loss_beta (model t)"

definition agree :: "bool \<Rightarrow> 'a state \<Rightarrow> 'b state \<Rightarrow> bool" where
  "agree b s t \<longleftrightarrow>
     params s = params t \<and> lambda_rev s = lambda_rev t \<and>
     mb_loss_alpha (model s) = mb_loss_alpha (model t) \<and>
     mb_loss_beta (model s) = mb_loss_beta (model t) \<and>
     d_ij s = d_ij t \<and>
     true_pos s = true_pos t \<and> true_neg s = true_neg t \<and>
     false_pos s = false_pos t \<and> false_neg s = false_neg t \<and>
     (b \<longrightarrow> mb_loss_val s = mb_loss_val t)"

definition same_apart_from_model :: "'a state \<Rightarrow> 'b state \<Rightarrow> bool" where
  "same_apart_from_model s t \<longleftrightarrow>
     device s = device t \<and> params s = params t \<and> classes s = classes t \<and>
     classes_dict s = classes_dict t \<and> lambda_rev s = lambda_rev t \<and> timer s = timer t \<and>
     l2_loss_val s = l2_loss_val t \<and> mb_loss_val s = mb_loss_val t \<and> d_ij s = d_ij t \<and>
     true_pos s = true_pos t \<and> true_neg s = true_neg t \<and>
     false_pos s = false_pos t \<and> false_neg s = false_neg t \<and>
     loss_val s = loss_val t \<and> stdout s = stdout t"

subsection \<open>Histories of calls\<close>

text \<open>A call of a method of the object with its arguments, the state it leaves (whether
  it returns or raises), and a sequence of calls.\<close>

datatype call =
    Call_set_timer timer
  | Call_l2_loss "tensor \<times> tensor" "real list"
  | Call_last_l2_loss "tensor \<times> tensor" "real list"
  | Call_mb_loss "nat \<Rightarrow> real" "tensor \<times> tensor" "real list"
  | Call_last_mb_loss "tensor \<times> tensor" "real list"
  | Call_last_false_pos "tensor \<times> tensor" "real list"
  | Call_last_false_neg "tensor \<times> tensor" "real list"
  | Call_last_true_pos "tensor \<times> tensor" "real list"
  | Call_last_true_neg "tensor \<times> tensor" "real list"
  | Call_loss "nat \<Rightarrow> real" "tensor \<times> tensor" "real list"

fun perform :: "call \<Rightarrow> 'm state \<Rightarrow> 'm state" where
  "perform (Call_set_timer tm) self = snd (set_timer tm self)"
| "perform (Call_l2_loss no yc) self = snd (l2_loss no yc self)"
| "perform (Call_last_l2_loss no yc) self = snd (last_l2_loss no yc self)"
| "perform (Call_mb_loss u no yc) self = snd (mb_loss u no yc self)"
| "perform (Call_last_mb_loss no yc) self = snd (last_mb_loss no yc self)"
| "perform (Call_last_false_pos no yc) self = snd (last_false_pos no yc self)"
| "perform (Call_last_false_neg no yc) self = snd (last_false_neg no yc self)"
| "perform (Call_last_true_pos no yc) self = snd (last_true_pos no yc self)"
| "perform (Call_last_true_neg no yc) self = snd (last_true_neg no yc self)"
| "perform (Call_loss u no yc) self = snd (loss u no yc self)"

definition perform_all :: "call list \<Rightarrow> 'm state \<Rightarrow> 'm state" where
  "perform_all cs self = fold perform cs self"

subsection \<open>Draws\<close>

text \<open>
  \<open>reads_draws k u f s out\<close>: run on the object \<open>s\<close> and on any generator whose first \<open>k\<close>
  draws are those of \<open>u\<close>, the method \<open>f\<close> returns or raises what \<open>out\<close> says, leaves the
  object as \<open>out\<close> says, and leaves the generator \<open>k\<close> draws further. So \<open>f\<close> reads of the
  generator these \<open>k\<close> draws and nothing else.
\<close>

definition reads_draws ::
  "nat \<Rightarrow> (nat \<Rightarrow> real) \<Rightarrow> ('s \<times> (nat \<Rightarrow> real) \<Rightarrow> 'r \<times> 's \<times> (nat \<Rightarrow> real)) \<Rightarrow> 's \<Rightarrow> 'r \<times> 's
     \<Rightarrow> bool" where
  "reads_draws k u f s out \<longleftrightarrow>
     (\<forall>g. (\<forall>m<k. g m = u m) \<longrightarrow> f (s, g) = (fst out, snd out, advance k g))"

subsection \<open>Labels\<close>

text \<open>
  \<open>int_part y c\<close>: the integer \<open>c\<close> is the number \<open>y\<close> without its fractional part, which
  is what \<open>int(y)\<close> returns. It is said here without a rounding function: \<open>c\<close> lies
  between 0 and \<open>y\<close> and is less than 1 away from \<open>y\<close>. A label is known when its integer
  part is one of the classes.
\<close>

definition int_part :: "real \<Rightarrow> int \<Rightarrow> bool" where
  "int_part y c \<longleftrightarrow>
     ((0 \<le> c \<and> of_int c \<le> y) \<or> (c \<le> 0 \<and> y \<le> of_int c)) \<and> \<bar>y - of_int c\<bar> < 1"

definition known_label :: "int list \<Rightarrow> real \<Rightarrow> bool" where
  "known_label cls y \<longleftrightarrow> (\<exists>c\<in>set cls. int_part y c)"

subsection \<open>A concrete object\<close>

text \<open>An object with two samples per class, as \<open>__init__\<close> leaves it for the classes
  \<open>{3, 1, 2}\<close>, and a batch of four one-dimensional embeddings with their logits.\<close>

definition example_params :: params where
  "example_params =
     \<lparr> data = \<lparr> samples_per_class = 2 \<rparr>,
       distance_weighted_sampling = \<lparr> lambda_param = 2 \<rparr> \<rparr>"

definition example_model :: model where
  "example_model = \<lparr> mb_loss_alpha = 1 / 5, mb_loss_beta = 6 / 5 \<rparr>"

definition example_self :: "unit state" where
  "example_self =
     \<lparr> model = example_model, device = ''cpu'', params = example_params,
       classes = [1, 2, 3],
       classes_dict = [1 \<mapsto> 0, 2 \<mapsto> 1, 3 \<mapsto> 2],
       lambda_rev = 1 / 2,
       timer = DummyTimer,
       l2_loss_val = None, mb_loss_val = None, d_ij = None,
       true_pos = None, true_neg = None, false_pos = None, false_neg = None,
       loss_val = None,
       stdout = [[PStr ''classes: '', PInt 3]] \<rparr>"

definition example_output :: "tensor \<times> tensor" where
  "example_output =
     (Tensor [4, 3] [0, 0, 0, 0, 0, 0, 0, 0, 0, 0, 0, 0], Tensor [4, 1] [0, 1, 2, 3])"

definition example_draws :: "nat \<Rightarrow> real" where
  "example_draws m = 1 / 2"

text \<open>A generator whose draws are all different: \<open>1/2\<close>, \<open>1/3\<close>, \<open>1/4\<close> and so on.\<close>

definition example_generator :: "nat \<Rightarrow> real" where
  "example_generator m = 1 / (real m + 2)"

text \<open>The same object around a model that holds something more, with the same two
  parameters.\<close>

definition example_self_other :: "string state" where
  "example_self_other =
     \<lparr> model = \<lparr> mb_loss_alpha = 1 / 5, mb_loss_beta = 6 / 5, \<dots> = ''resnet'' \<rparr>,
       device = ''cpu'', params = example_params,
       classes = [1, 2, 3],
       classes_dict = [1 \<mapsto> 0, 2 \<mapsto> 1, 3 \<mapsto> 2],
       lambda_rev = 1 / 2,
       timer = DummyTimer,
       l2_loss_val = None, mb_loss_val = None, d_ij = None,
       true_pos = None, true_neg = None, false_pos = None, false_neg = None,
       loss_val = None,
       stdout = [[PStr ''classes: '', PInt 3]] \<rparr>"

section \<open>Properties\<close>

subsection \<open>Tensors\<close>

lemma flat_index_less: "i < n \<Longrightarrow> j < m \<Longrightarrow> i * m + j < n * (m::nat)"
proof -
  assume a: "i < n" "j < m"
  have "i * m + j < Suc i * m" using a by simp
  also have "\<dots> \<le> n * m" using a by (intro mult_le_mono1) simp
  finally show ?thesis .
qed

lemma length_concat_rows: "length (concat (map (\<lambda>i. map (f i) [0..<m]) [0..<n])) = n * m"
  by (induction n) simp_all

lemma concat_rows_nth:
  "i < n \<Longrightarrow> j < m \<Longrightarrow> concat (map (\<lambda>i. map (f i) [0..<m]) [0..<n]) ! (i * m + j) = f i j"
proof (induction n)
  case 0 then show ?case by simp
next
  case (Suc n)
  show ?case
  proof (cases "i < n")
    case True
    then have "i * m + j < n * m" using Suc.prems(2) by (rule flat_index_less)
    with True Suc show ?thesis by (simp add: nth_append length_concat_rows)
  next
    case False
    with Suc.prems have "i = n" by simp
    with Suc.prems show ?thesis by (simp add: nth_append length_concat_rows)
  qed
qed

lemma shape_tensor2 [simp]: "shape (tensor2 n m f) = [n, m]"
  by (simp add: tensor2_def)

lemma item2_tensor2: "i < n \<Longrightarrow> j < m \<Longrightarrow> item2 (tensor2 n m f) i j = f i j"
  by (simp add: item2_def tensor2_def concat_rows_nth)

lemma get_item2_tensor2:
  "get_item2 (tensor2 n m f) i j = (if i < n \<and> j < m then Inr (f i j) else Inl IndexError)"
  by (simp add: get_item2_def item2_tensor2)

lemma tensor2_cong:
  "(\<And>i j. i < n \<Longrightarrow> j < m \<Longrightarrow> f i j = g i j) \<Longrightarrow> tensor2 n m f = tensor2 n m g"
  unfolding tensor2_def by (auto intro!: arg_cong[where f=concat] map_cong)

lemma tmap_tensor2: "tmap g (tensor2 n m f) = tensor2 n m (\<lambda>i j. g (f i j))"
  by (simp add: tmap_def tensor2_def map_concat comp_def)

lemma take_drop_rows:
  "i < n \<Longrightarrow> take m (drop (i * m) (concat (map (\<lambda>i. map (f i) [0..<m]) [0..<n]))) = map (f i) [0..<m]"
proof (rule nth_equalityI)
  assume i: "i < n"
  have "i * m + m \<le> n * m" using i
    by (metis Suc_leI mult_Suc mult_le_mono1 add.commute)
  then show "length (take m (drop (i * m) (concat (map (\<lambda>i. map (f i) [0..<m]) [0..<n])))) = length (map (f i) [0..<m])"
    by (simp add: length_concat_rows)
  fix j assume "j < length (take m (drop (i * m) (concat (map (\<lambda>i. map (f i) [0..<m]) [0..<n]))))"
  then have j: "j < m" by simp
  with i show "take m (drop (i * m) (concat (map (\<lambda>i. map (f i) [0..<m]) [0..<n]))) ! j = map (f i) [0..<m] ! j"
    using flat_index_less[OF i j] by (simp add: length_concat_rows concat_rows_nth)
qed

lemma get_row_tensor2:
  "get_row (tensor2 n m f) i = (if i < n then Inr (map (f i) [0..<m]) else Inl IndexError)"
  by (simp add: get_row_def tensor2_def take_drop_rows)

lemma squared_distances_2d:
  assumes "shape pe = [n, d]" "wf_tensor pe"
  shows "squared_distances pe = Inr (tensor2 n n (\<lambda>i j. row_norm2 pe i + row_norm2 pe j - 2 * row_dot pe i j))"
proof -
  have len: "length (elems pe) = n * d" using assms by (simp add: wf_tensor_def)
  have s1: "sum_dim1 (tmap (\<lambda>x. x ^ 2) pe) = Inr (Tensor [n] (map (row_norm2 pe) [0..<n]))"
    using assms(1) len
    apply (simp add: sum_dim1_def tmap_def row_norm2_def)
    apply clarify
    apply (rule arg_cong[where f=sum_list])
    apply (rule map_cong)
     apply (simp_all add: item2_def flat_index_less)
    done
  have s2: "broadcast2 (+) (view_col (Tensor [n] (map (row_norm2 pe) [0..<n]))) (view_row (Tensor [n] (map (row_norm2 pe) [0..<n])))
     = Inr (tensor2 n n (\<lambda>i j. row_norm2 pe i + row_norm2 pe j))"
    apply (simp add: broadcast2_def view_col_def view_row_def bdim_def item2_def)
    apply (auto intro!: tensor2_cong)
    done
  have s3: "transpose01 pe = Inr (tensor2 d n (\<lambda>i j. item2 pe j i))"
    using assms(1) by (simp add: transpose01_def)
  have s4: "mm pe (tensor2 d n (\<lambda>i j. item2 pe j i)) = Inr (tensor2 n n (row_dot pe))"
    using assms(1)
    apply (simp add: mm_def)
    apply (rule tensor2_cong)
    apply (simp add: row_dot_def)
    apply (rule arg_cong[where f=sum_list])
    apply (rule map_cong)
     apply (simp_all add: item2_tensor2)
    done
  have s5: "broadcast2 (-) (tensor2 n n (\<lambda>i j. row_norm2 pe i + row_norm2 pe j)) (tmap (\<lambda>x. 2 * x) (tensor2 n n (row_dot pe)))
     = Inr (tensor2 n n (\<lambda>i j. row_norm2 pe i + row_norm2 pe j - 2 * row_dot pe i j))"
    apply (simp add: tmap_tensor2 broadcast2_def bdim_def)
    apply (auto intro!: tensor2_cong simp: item2_tensor2)
    done
  show ?thesis
    by (simp add: squared_distances_def attempt_def s1 s2 s3 s4 s5)
qed

lemma sum_list_map_divide: "sum_list (map (\<lambda>x. x / s) w) = sum_list w / (s::real)"
  by (induction w) (simp_all add: add_divide_distrib)

lemma length_cumsum [simp]: "length (cumsum p) = length p"
  by (simp add: cumsum_def)

lemma cumsum_nth: "k < length p \<Longrightarrow> cumsum p ! k = sum_list (take k p) + p ! k"
  by (simp add: cumsum_def take_Suc_conv_app_nth)

lemma last_cumsum: "p \<noteq> [] \<Longrightarrow> last (cumsum p) = sum_list p"
  by (simp add: cumsum_def last_map last_conv_nth)

lemma searchsorted_right_le: "searchsorted_right cdf x \<le> length cdf"
  by (simp add: searchsorted_right_def length_takeWhile_le)

lemma searchsorted_right_less:
  "cdf \<noteq> [] \<Longrightarrow> x < last cdf \<Longrightarrow> searchsorted_right cdf x < length cdf"
proof (rule ccontr)
  assume ne: "cdf \<noteq> []" and lt: "x < last cdf" and "\<not> searchsorted_right cdf x < length cdf"
  then have "length (takeWhile (\<lambda>c. c \<le> x) cdf) = length cdf"
    using searchsorted_right_le[of cdf x] by (simp add: searchsorted_right_def)
  then have "takeWhile (\<lambda>c. c \<le> x) cdf = cdf"
    by (metis takeWhile_eq_take take_all order_refl)
  then have "\<forall>c\<in>set cdf. c \<le> x" by (metis set_takeWhileD)
  with ne have "last cdf \<le> x" by simp
  with lt show False by simp
qed

lemma searchsorted_right_gt:
  "searchsorted_right cdf x < length cdf \<Longrightarrow> x < cdf ! searchsorted_right cdf x"
  unfolding searchsorted_right_def using nth_length_takeWhile[of "\<lambda>c. c \<le> x" cdf] by simp

lemma searchsorted_right_before:
  "k < searchsorted_right cdf x \<Longrightarrow> cdf ! k \<le> x"
  unfolding searchsorted_right_def
  by (metis nth_mem set_takeWhileD takeWhile_nth)

text \<open>A choice is rejected with \<open>ValueError\<close>, or it returns an entry of positive
  probability.\<close>

lemma random_choice_cases:
  assumes x: "0 \<le> x" "x < 1"
  shows "random_choice a p x = Inl ValueError \<or>
     (\<exists>q idx. p = Some q \<and> length q = length a \<and> idx < length a \<and> 0 < q ! idx \<and>
         random_choice a p x = Inr (a ! idx))"
proof (cases "a = [] \<or> p = None")
  case True then show ?thesis by (auto simp: random_choice_def)
next
  case False
  then obtain q where q: "p = Some q" and a: "a \<noteq> []" by auto
  show ?thesis
  proof (cases "length q \<noteq> length a \<or> (\<exists>z\<in>set q. z < 0) \<or> \<bar>sum_list q - 1\<bar> > atol")
    case True then show ?thesis using q a by (auto simp: random_choice_def)
  next
    case ok: False
    then have len: "length q = length a" and nonneg: "\<forall>z\<in>set q. 0 \<le> z" 
      and sum: "\<bar>sum_list q - 1\<bar> \<le> atol" by (auto simp: not_less)
    have qne: "q \<noteq> []" using len a by auto
    define s where "s = sum_list q"
    have "atol < 1" by (simp add: atol_def)
    then have spos: "0 < s" using sum by (simp add: s_def abs_le_iff)
    define cdf where "cdf = map (\<lambda>c. c / last (cumsum q)) (cumsum q)"
    have lc: "last (cumsum q) = s" using qne by (simp add: last_cumsum s_def)
    have cdfne: "cdf \<noteq> []" using qne by (simp add: cdf_def cumsum_def)
    have lencdf: "length cdf = length q" by (simp add: cdf_def)
    have lastcdf: "last cdf = 1" using qne spos lc
      by (simp add: cdf_def last_map cumsum_def)
    define idx where "idx = searchsorted_right cdf x"
    have idx: "idx < length q" using searchsorted_right_less[OF cdfne, of x] x lastcdf lencdf
      by (simp add: idx_def)
    have gt: "x < cdf ! idx" using searchsorted_right_gt[of cdf x] idx lencdf by (simp add: idx_def)
    have cdfn: "cdf ! k = (sum_list (take k q) + q ! k) / s" if "k < length q" for k
      using that lc by (simp add: cdf_def cumsum_nth)
    have before: "sum_list (take idx q) / s \<le> x"
    proof (cases idx)
      case 0 then show ?thesis using x by simp
    next
      case (Suc k)
      then have "cdf ! k \<le> x" using searchsorted_right_before[of k cdf x] by (simp add: idx_def)
      moreover have "k < length q" using Suc idx by simp
      ultimately show ?thesis using Suc by (simp add: cdfn take_Suc_conv_app_nth)
    qed
    have "sum_list (take idx q) / s < (sum_list (take idx q) + q ! idx) / s"
      using before gt cdfn[OF idx] by simp
    then have qpos: "0 < q ! idx" using spos by (simp add: divide_less_cancel)
    have "random_choice a p x = Inr (a ! idx)"
      using q a ok idx len by (simp add: random_choice_def Let_def cdf_def idx_def)
    then show ?thesis using q len idx qpos by auto
  qed
qed

lemma random_choice_weights:
  assumes x: "0 \<le> x" "x < 1" and a: "a \<noteq> []" and len: "length w = length a"
    and nonneg: "\<forall>z\<in>set w. 0 \<le> z" and pos: "0 < sum_list w"
  shows "\<exists>idx<length a. 0 < w ! idx \<and> random_choice a (np_divide w (sum_list w)) x = Inr (a ! idx)"
proof -
  let ?q = "map (\<lambda>z. z / sum_list w) w"
  have nd: "np_divide w (sum_list w) = Some ?q" using pos by (simp add: np_divide_def)
  have "sum_list ?q = 1" using pos by (simp add: sum_list_map_divide)
  moreover have "\<forall>z\<in>set ?q. 0 \<le> z" using nonneg pos by simp
  ultimately have "random_choice a (Some ?q) x \<noteq> Inl ValueError"
    using a len by (auto simp: random_choice_def Let_def atol_def not_less)
  with random_choice_cases[OF x, of a "Some ?q"] obtain idx where
    "idx < length a" "0 < ?q ! idx" "random_choice a (Some ?q) x = Inr (a ! idx)" by auto
  then show ?thesis using nd len pos by (auto simp: zero_less_divide_iff)
qed

lemma length_row_weights [simp]: "length (row_weights lam edim d) = length d"
  by (simp add: row_weights_def)

lemma row_weights_pos: "k < length d \<Longrightarrow> 0 < row_weights lam edim d ! k"
proof -
  have "0 < max (exp x) lam" for x :: real
    by (rule less_le_trans[OF exp_gt_zero[of x]]) simp
  then show "k < length d \<Longrightarrow> 0 < row_weights lam edim d ! k"
    by (simp add: row_weights_def Let_def)
qed

lemma le_sum_list_nonneg:
  fixes w :: "real list"
  shows "\<forall>z\<in>set w. 0 \<le> z \<Longrightarrow> k < length w \<Longrightarrow> w ! k \<le> sum_list w"
proof (induction w arbitrary: k)
  case Nil then show ?case by simp
next
  case (Cons a w)
  have "0 \<le> sum_list w" using Cons.prems(1) by (simp add: sum_list_nonneg)
  show ?case
  proof (cases k)
    case 0 then show ?thesis using \<open>0 \<le> sum_list w\<close> by simp
  next
    case (Suc k')
    then have "w ! k' \<le> sum_list w" using Cons by simp
    moreover have "0 \<le> a" using Cons.prems(1) by simp
    ultimately show ?thesis using Suc by simp
  qed
qed

lemma length_slice: "length (slice w lo hi) = min (hi - lo) (length w - lo)"
  by (simp add: slice_def)

lemma slice_nth: "lo + t < length w \<Longrightarrow> t < hi - lo \<Longrightarrow> slice w lo hi ! t = w ! (lo + t)"
  by (simp add: slice_def)

lemma np_delete_nth:
  "lo < hi \<Longrightarrow> hi \<le> length w \<Longrightarrow> t < length w - (hi - lo) \<Longrightarrow>
     np_delete w lo hi ! t = w ! (if lo \<le> t then t + (hi - lo) else t)"
  by (auto simp: np_delete_def nth_append min_def algebra_simps)

lemma length_np_delete: "lo < hi \<Longrightarrow> hi \<le> length w \<Longrightarrow> length (np_delete w lo hi) = length w - (hi - lo)"
  by (auto simp: np_delete_def)

lemma length_wts [simp]: "length (wts lam edim n f i) = n"
  by (simp add: wts_def)

lemma wts_nth: "k < n \<Longrightarrow> wts lam edim n f i ! k = (if k = i then 0 else row_weights lam edim (map (f i) [0..<n]) ! k)"
  by (simp add: wts_def nth_list_update)

lemma wts_pos: "k < n \<Longrightarrow> k \<noteq> i \<Longrightarrow> 0 < wts lam edim n f i ! k"
  by (simp add: wts_nth row_weights_pos)

lemma wts_nonneg: "k < n \<Longrightarrow> 0 \<le> wts lam edim n f i ! k"
  using row_weights_pos[of k "map (f i) [0..<n]" lam edim] by (simp add: wts_nth)

lemma sample_pair_unfold:
  assumes "i < n"
  shows "sample_pair u n edim spc lam alpha beta (tensor2 n n f) i_start i l =
    attempt (random_choice [i_start..<i_start + spc]
               (np_divide (slice (wts lam edim n f i) i_start (i_start + spc))
                  (sum_list (slice (wts lam edim n f i) i_start (i_start + spc)))) (u (2 * i))) (\<lambda>j.
      if j = i then Inl (AssertionError None) else
      attempt (get_item2 (tensor2 n n f) i j) (\<lambda>dij.
      attempt (random_choice [0..<n - spc]
                 (np_divide (np_delete (wts lam edim n f i) i_start (i_start + spc))
                    (sum_list (np_delete (wts lam edim n f i) i_start (i_start + spc)))) (u (2 * i + 1))) (\<lambda>k.
      attempt (get_item2 (tensor2 n n f) i (if k \<ge> i_start then k + spc else k)) (\<lambda>dik.
      Inr (l + max (alpha + (dij - beta)) 0 + max (alpha - (dik - beta)) 0, map (f i) [0..<n], j,
           if k \<ge> i_start then k + spc else k)))))"
  using assms
  by (simp add: sample_pair_def get_row_tensor2 set_item_def attempt_def Let_def wts_def
      cong: sum.case_cong if_cong)

lemma sample_pair_cases:
  assumes draws: "\<forall>m. 0 \<le> u m \<and> u m < 1" and full: "i_start + spc \<le> n"
    and i: "i_start \<le> i" "i < i_start + spc"
  shows "(\<forall>l. sample_pair u n edim spc lam alpha beta (tensor2 n n f) i_start i l = Inl ValueError) \<or>
     (\<exists>j k. i_start \<le> j \<and> j < i_start + spc \<and> j \<noteq> i \<and> k < n \<and> \<not> (i_start \<le> k \<and> k < i_start + spc) \<and>
        (\<forall>l. sample_pair u n edim spc lam alpha beta (tensor2 n n f) i_start i l =
           Inr (l + max (alpha + (f i j - beta)) 0 + max (alpha - (f i k - beta)) 0,
                map (f i) [0..<n], j, k)))"
proof -
  have iltn: "i < n" using full i by simp
  define W where "W = wts lam edim n f i"
  define ws where "ws = slice W i_start (i_start + spc)"
  define wn where "wn = np_delete W i_start (i_start + spc)"
  note unf = sample_pair_unfold[OF iltn, of u edim spc lam alpha beta f i_start, folded W_def, folded ws_def wn_def]
  have x1: "0 \<le> u (2 * i)" "u (2 * i) < 1" and x2: "0 \<le> u (2 * i + 1)" "u (2 * i + 1) < 1"
    using draws by auto
  have lenws: "length ws = spc" using full by (simp add: ws_def W_def length_slice)
  from random_choice_cases[OF x1, of "[i_start..<i_start + spc]" "np_divide ws (sum_list ws)"]
  show ?thesis
  proof (elim disjE exE conjE)
    assume "random_choice [i_start..<i_start + spc] (np_divide ws (sum_list ws)) (u (2 * i)) = Inl ValueError"
    then show ?thesis by (simp add: unf attempt_def)
  next
    fix q idx
    assume q: "np_divide ws (sum_list ws) = Some q" and idx: "idx < length [i_start..<i_start + spc]"
      and qpos: "0 < q ! idx"
      and rc: "random_choice [i_start..<i_start + spc] (np_divide ws (sum_list ws)) (u (2 * i)) = Inr ([i_start..<i_start + spc] ! idx)"
    have idx': "idx < spc" using idx by simp
    have jeq: "[i_start..<i_start + spc] ! idx = i_start + idx" using idx' by simp
    have "q = map (\<lambda>z. z / sum_list ws) ws" using q by (auto simp: np_divide_def split: if_splits)
    then have "ws ! idx \<noteq> 0" using qpos idx' lenws by auto
    moreover have "ws ! idx = W ! (i_start + idx)" using idx' full
      by (simp add: ws_def slice_nth W_def)
    ultimately have jne: "i_start + idx \<noteq> i" using iltn by (auto simp: W_def wts_nth)
    have jn: "i_start + idx < n" using idx' full by simp
    from random_choice_cases[OF x2, of "[0..<n - spc]" "np_divide wn (sum_list wn)"]
    show ?thesis
    proof (elim disjE exE conjE)
      assume "random_choice [0..<n - spc] (np_divide wn (sum_list wn)) (u (2 * i + 1)) = Inl ValueError"
      then show ?thesis using rc jeq jne jn iltn by (simp add: unf attempt_def get_item2_tensor2)
    next
      fix q2 idx2
      assume idx2: "idx2 < length [0..<n - spc]"
        and rc2: "random_choice [0..<n - spc] (np_divide wn (sum_list wn)) (u (2 * i + 1)) = Inr ([0..<n - spc] ! idx2)"
      define k where "k = (if i_start \<le> idx2 then idx2 + spc else idx2)"
      have k: "k < n" "\<not> (i_start \<le> k \<and> k < i_start + spc)" using idx2 by (auto simp: k_def)
      have eq: "\<forall>l. sample_pair u n edim spc lam alpha beta (tensor2 n n f) i_start i l =
           Inr (l + max (alpha + (f i (i_start + idx) - beta)) 0 + max (alpha - (f i k - beta)) 0,
                map (f i) [0..<n], i_start + idx, k)"
        using rc rc2 jeq jne jn iltn idx2 k by (simp add: unf attempt_def get_item2_tensor2 k_def)
      show ?thesis
        using k jne idx' by (intro disjI2 exI[of _ "i_start + idx"] exI[of _ k]) (simp add: eq)
    qed
  qed
qed

lemma sample_pair_ok:
  assumes draws: "\<forall>m. 0 \<le> u m \<and> u m < 1" and full: "i_start + spc \<le> n"
    and i: "i_start \<le> i" "i < i_start + spc" and spc: "2 \<le> spc" "spc < n"
  shows "\<exists>j k. i_start \<le> j \<and> j < i_start + spc \<and> j \<noteq> i \<and> k < n \<and> \<not> (i_start \<le> k \<and> k < i_start + spc) \<and>
        (\<forall>l. sample_pair u n edim spc lam alpha beta (tensor2 n n f) i_start i l =
           Inr (l + max (alpha + (f i j - beta)) 0 + max (alpha - (f i k - beta)) 0,
                map (f i) [0..<n], j, k))"
proof -
  have iltn: "i < n" using full i by simp
  define W where "W = wts lam edim n f i"
  define ws where "ws = slice W i_start (i_start + spc)"
  define wn where "wn = np_delete W i_start (i_start + spc)"
  note unf = sample_pair_unfold[OF iltn, of u edim spc lam alpha beta f i_start, folded W_def, folded ws_def wn_def]
  have x1: "0 \<le> u (2 * i)" "u (2 * i) < 1" and x2: "0 \<le> u (2 * i + 1)" "u (2 * i + 1) < 1"
    using draws by auto
  have lenws: "length ws = spc" using full by (simp add: ws_def W_def length_slice)
  have wsn: "ws ! t = W ! (i_start + t)" if "t < spc" for t
    using that full by (simp add: ws_def slice_nth W_def)
  have ws_nonneg: "\<forall>z\<in>set ws. 0 \<le> z"
    using wsn full lenws by (auto simp: in_set_conv_nth W_def wts_nonneg)
  obtain t where t: "t < spc" "i_start + t \<noteq> i"
  proof (cases "i = i_start")
    case True then show thesis using that[of 1] spc by simp
  next
    case False then show thesis using that[of 0] spc by simp
  qed
  have "0 < ws ! t" using t full by (simp add: wsn W_def wts_pos)
  also have "ws ! t \<le> sum_list ws" using ws_nonneg t lenws by (intro le_sum_list_nonneg) auto
  finally have ws_pos: "0 < sum_list ws" .
  have lenwn: "length wn = n - spc" using full spc by (simp add: wn_def W_def length_np_delete)
  have wnn: "0 < wn ! t" if "t < n - spc" for t
    using that full spc i by (auto simp: wn_def W_def np_delete_nth wts_pos)
  have wn_nonneg: "\<forall>z\<in>set wn. 0 \<le> z"
    using wnn lenwn by (auto simp: in_set_conv_nth intro!: less_imp_le)
  have "0 < wn ! 0" using spc by (intro wnn) simp
  also have "wn ! 0 \<le> sum_list wn" using wn_nonneg lenwn spc by (intro le_sum_list_nonneg) auto
  finally have wn_pos: "0 < sum_list wn" .
  have e1: "random_choice [i_start..<i_start + spc] (np_divide ws (sum_list ws)) (u (2 * i)) \<noteq> Inl ValueError"
    using random_choice_weights[OF x1 _ _ ws_nonneg ws_pos, of "[i_start..<i_start + spc]"] lenws spc by auto
  have e2: "random_choice [0..<n - spc] (np_divide wn (sum_list wn)) (u (2 * i + 1)) \<noteq> Inl ValueError"
    using random_choice_weights[OF x2 _ _ wn_nonneg wn_pos, of "[0..<n - spc]"] lenwn spc by auto
  from sample_pair_cases[OF draws full i, of edim lam alpha beta f]
  show ?thesis
  proof
    assume "\<forall>l. sample_pair u n edim spc lam alpha beta (tensor2 n n f) i_start i l = Inl ValueError"
    then have v: "sample_pair u n edim spc lam alpha beta (tensor2 n n f) i_start i 0 = Inl ValueError" by simp
    have False using v e1 e2 unfolding unf
      by (auto simp: attempt_def get_item2_tensor2 split: sum.splits if_splits)
    then show ?thesis ..
  qed
qed

lemma for_loop_rule:
  assumes step: "\<And>t a s. t < length xs \<Longrightarrow> I t a s \<Longrightarrow>
      (case body (xs ! t) a s of (Inl e, s') \<Rightarrow> Q e s' | (Inr a', s') \<Rightarrow> I (Suc t) a' s')"
    and init: "I 0 a s"
  shows "case for_loop xs body a s of (Inl e, s') \<Rightarrow> Q e s' | (Inr a', s') \<Rightarrow> I (length xs) a' s'"
  using assms
proof (induction xs arbitrary: I a s)
  case Nil
  then show ?case by simp
next
  case (Cons x xs)
  from Cons.prems(1)[of 0 a s] Cons.prems(2)
  have h: "case body x a s of (Inl e, s') \<Rightarrow> Q e s' | (Inr a', s') \<Rightarrow> I (Suc 0) a' s'" by simp
  show ?case
  proof (cases "body x a s")
    case (Pair r s1)
    show ?thesis
    proof (cases r)
      case (Inl e)
      with Pair h show ?thesis by simp
    next
      case (Inr a1)
      with Pair h have i1: "I (Suc 0) a1 s1" by simp
      have "case for_loop xs body a1 s1 of (Inl e, s') \<Rightarrow> Q e s'
            | (Inr a', s') \<Rightarrow> I (Suc (length xs)) a' s'"
      proof (rule Cons.IH[where I = "\<lambda>t. I (Suc t)"])
        fix t a s assume "t < length xs" "I (Suc t) a s"
        then show "case body (xs ! t) a s of (Inl e, s') \<Rightarrow> Q e s' | (Inr a', s') \<Rightarrow> I (Suc (Suc t)) a' s'"
          using Cons.prems(1)[of "Suc t" a s] by simp
      qed (rule i1)
      with Pair Inr show ?thesis by (simp split: prod.splits sum.splits)
    qed
  qed
qed

lemma record_pair_frame: "rest_of (snd (record_pair n i_start i_end l d s)) = rest_of s"
  by (simp add: record_pair_def rest_of_def attempt_in_def add_attr_def Let_def
      split: sum.splits option.splits)

lemma loop_body_frame: "rest_of (snd (loop_body u n edim i_start i l s)) = rest_of s"
  by (auto simp: loop_body_def attempt_in_def read_attr_def record_pair_frame Let_def
      split: sum.splits option.splits prod.splits)

lemma for_loop_frame:
  assumes "\<And>x a s. f (snd (body x a s)) = f s"
  shows "f (snd (for_loop xs body a s)) = f s"
proof (induction xs arbitrary: a s)
  case Nil then show ?case by simp
next
  case (Cons x xs)
  show ?case using assms[of x a s] Cons.IH
    by (auto split: prod.splits sum.splits)
qed

lemma pair_loops_frame: "rest_of (snd (pair_loops u n edim spc starts s)) = rest_of s"
  unfolding pair_loops_def
  by (rule for_loop_frame) (rule for_loop_frame, rule loop_body_frame)

lemma finish_counters_frame: "rest_of (snd (finish_counters n s)) = rest_of s"
  by (simp add: finish_counters_def rest_of_def attempt_in_def div_attr_def get_attr_def Let_def
      split: sum.splits option.splits)

lemma clamp_sqrt_tensor2:
  "clamp_sqrt (tensor2 n m f) = tensor2 n m (\<lambda>i j. sqrt (max (f i j) 0 + 1 / 10 ^ 8))"
  by (simp add: clamp_sqrt_def tmap_tensor2)

lemma mb_loss_2d:
  assumes "shape pe = [n, d]" "wf_tensor pe" "0 < n"
  shows "mb_loss u (pc, pe) yc self =
    (let s1 = self\<lparr>true_pos := Some 0, true_neg := Some 0, false_pos := Some 0, false_neg := Some 0,
                    d_ij := Some (tensor2 n n (dist_entry pe))\<rparr>
     in attempt_in s1 (range_step 0 n (samples_per_class (data (params self)))) (\<lambda>starts.
        case pair_loops u n d (samples_per_class (data (params self))) starts s1 of
          (Inl e, s) \<Rightarrow> (Inl e, s)
        | (Inr l, s) \<Rightarrow> finish_counters n s))"
proof -
  have "clamp_sqrt (tensor2 n n (\<lambda>i j. row_norm2 pe i + row_norm2 pe j - 2 * row_dot pe i j))
    = tensor2 n n (dist_entry pe)"
    unfolding clamp_sqrt_tensor2 by (rule tensor2_cong) (simp add: dist_entry_def)
  then show ?thesis
    using assms
    by (simp add: mb_loss_def squared_distances_2d[OF assms(1,2)] attempt_in_def Let_def
        split: sum.splits)
qed

lemma mb_loss_rest:
  assumes "shape pe = [n, d]" "wf_tensor pe" "0 < n"
  shows "rest_of (snd (mb_loss u (pc, pe) yc self)) = rest_of (self\<lparr>d_ij := Some (tensor2 n n (dist_entry pe))\<rparr>)"
proof -
  define s1 where "s1 = self\<lparr>true_pos := Some 0, true_neg := Some 0, false_pos := Some 0, false_neg := Some 0,
                    d_ij := Some (tensor2 n n (dist_entry pe))\<rparr>"
  have r1: "rest_of s1 = rest_of (self\<lparr>d_ij := Some (tensor2 n n (dist_entry pe))\<rparr>)"
    by (simp add: s1_def rest_of_def)
  have "rest_of (snd (mb_loss u (pc, pe) yc self)) = rest_of s1"
  proof (cases "range_step 0 n (samples_per_class (data (params self)))")
    case (Inl e)
    then show ?thesis
      unfolding mb_loss_2d[OF assms] Let_def s1_def[symmetric] by (simp add: attempt_in_def)
  next
    case (Inr starts)
    obtain r s2 where p: "pair_loops u n d (samples_per_class (data (params self))) starts s1 = (r, s2)"
      by (cases "pair_loops u n d (samples_per_class (data (params self))) starts s1") auto
    have f: "rest_of s2 = rest_of s1"
      using pair_loops_frame[of u n d "samples_per_class (data (params self))" starts s1] p by simp
    show ?thesis
      unfolding mb_loss_2d[OF assms] Let_def s1_def[symmetric]
      using Inr p f finish_counters_frame[of n s2]
      by (cases r) (simp_all add: attempt_in_def)
  qed
  then show ?thesis using r1 by simp
qed

lemma d_ij_rest_of: "d_ij (rest_of s) = d_ij s"
  by (simp add: rest_of_def)

lemma get_row_wf:
  assumes "shape pe = [n, d]" "wf_tensor pe" "i < n"
  shows "get_row pe i = Inr (map (item2 pe i) [0..<d])"
proof -
  have len: "length (elems pe) = n * d" using assms by (simp add: wf_tensor_def)
  have "i * d + d \<le> n * d" using assms(3)
    by (metis Suc_leI mult_Suc mult_le_mono1 add.commute)
  then have le: "i * d \<le> length (elems pe)" and le2: "d \<le> length (elems pe) - i * d"
    unfolding len by linarith+
  have "take d (drop (i * d) (elems pe)) = map (item2 pe i) [0..<d]"
    using assms(1) le2 by (intro nth_equalityI) (simp_all add: item2_def nth_drop[OF le])
  then show ?thesis using assms by (simp add: get_row_def)
qed

lemma sq_norm_row: "sq_norm (map (item2 pe i) [0..<d]) = (\<Sum>c\<leftarrow>[0..<d]. (item2 pe i c)\<^sup>2)"
  by (simp add: sq_norm_def comp_def)

lemma inner_prod_row:
  "inner_prod (map (item2 pe i) [0..<d]) (map (item2 pe j) [0..<d]) = (\<Sum>c\<leftarrow>[0..<d]. item2 pe i c * item2 pe j c)"
  by (simp add: inner_prod_def zip_map_map zip_same_conv_map comp_def)

subsection \<open>Two objects run side by side\<close>

lemma record_pair_agree:
  assumes "agree b s t"
  shows "fst (record_pair n i_start i_end l d s) = fst (record_pair n i_start i_end l d t) \<and>
         agree True (snd (record_pair n i_start i_end l d s)) (snd (record_pair n i_start i_end l d t))"
  using assms
  by (simp add: record_pair_def agree_def attempt_in_def add_attr_def Let_def
      split: option.splits)

lemma loop_body_agree:
  assumes "agree b s t"
  shows "fst (loop_body u n edim i_start i l s) = fst (loop_body u n edim i_start i l t) \<and>
         agree (b \<or> \<not> isl (fst (loop_body u n edim i_start i l s)))
           (snd (loop_body u n edim i_start i l s)) (snd (loop_body u n edim i_start i l t))"
proof (cases "d_ij s")
  case None
  then show ?thesis using assms
    by (simp add: loop_body_def attempt_in_def read_attr_def agree_def)
next
  case (Some dm)
  then have dt: "d_ij t = Some dm" using assms by (simp add: agree_def)
  let ?sp = "sample_pair u n edim (samples_per_class (data (params s))) (lambda_rev s)
           (mb_loss_alpha (model s)) (mb_loss_beta (model s)) dm i_start i l"
  have sp: "sample_pair u n edim (samples_per_class (data (params t))) (lambda_rev t)
           (mb_loss_alpha (model t)) (mb_loss_beta (model t)) dm i_start i l = ?sp"
    using assms by (simp add: agree_def)
  show ?thesis
  proof (cases ?sp)
    case (Inl e)
    then show ?thesis using assms Some dt sp
      by (simp add: loop_body_def attempt_in_def read_attr_def)
  next
    case (Inr r)
    obtain l' d j k where r: "r = (l', d, j, k)" by (cases r) auto
    have ps: "samples_per_class (data (params t)) = samples_per_class (data (params s))"
      using assms by (simp add: agree_def)
    show ?thesis
      using record_pair_agree[OF assms, of n i_start "i_start + samples_per_class (data (params s))" l' d]
        Inr r Some dt sp ps
      by (simp add: loop_body_def attempt_in_def read_attr_def agree_def)
  qed
qed

lemma for_loop_agree:
  fixes body1 :: "nat \<Rightarrow> real \<Rightarrow> 'a state \<Rightarrow> (error + real) \<times> 'a state"
    and body2 :: "nat \<Rightarrow> real \<Rightarrow> 'b state \<Rightarrow> (error + real) \<times> 'b state"
  assumes step: "\<And>x a b s t. agree b s t \<Longrightarrow>
      fst (body1 x a s) = fst (body2 x a t) \<and>
      agree (b \<or> \<not> isl (fst (body1 x a s))) (snd (body1 x a s)) (snd (body2 x a t))"
    and "agree b s t"
  shows "fst (for_loop xs body1 a s) = fst (for_loop xs body2 a t) \<and>
      agree (b \<or> (xs \<noteq> [] \<and> \<not> isl (fst (for_loop xs body1 a s))))
        (snd (for_loop xs body1 a s)) (snd (for_loop xs body2 a t))"
  using assms(2)
proof (induction xs arbitrary: a b s t)
  case Nil
  then show ?case by simp
next
  case (Cons x xs)
  obtain r1 s1 where b1: "body1 x a s = (r1, s1)" by (cases "body1 x a s") auto
  obtain r2 t1 where b2: "body2 x a t = (r2, t1)" by (cases "body2 x a t") auto
  from step[OF Cons.prems, of x a] b1 b2
  have eq: "r1 = r2" and ag: "agree (b \<or> \<not> isl r1) s1 t1" by auto
  show ?case
  proof (cases r1)
    case (Inl e)
    then show ?thesis using b1 b2 eq ag by simp
  next
    case (Inr a1)
    then have ag1: "agree True s1 t1" using ag by simp
    from Cons.IH[OF ag1, of a1]
    show ?thesis using b1 b2 eq Inr by (auto simp: agree_def)
  qed
qed

lemma pair_loops_agree:
  assumes "agree b s t" "0 < spc"
  shows "fst (pair_loops u n edim spc starts s) = fst (pair_loops u n edim spc starts t) \<and>
      agree (b \<or> (starts \<noteq> [] \<and> \<not> isl (fst (pair_loops u n edim spc starts s))))
        (snd (pair_loops u n edim spc starts s)) (snd (pair_loops u n edim spc starts t))"
  unfolding pair_loops_def
proof (rule for_loop_agree[OF _ assms(1)])
  fix x a b and s :: "'a state" and t :: "'b state"
  assume ag: "agree b s t"
  have ne: "[x..<x + spc] \<noteq> []" using assms(2) by simp
  from for_loop_agree[of "loop_body u n edim x" "loop_body u n edim x" b s t "[x..<x + spc]" a,
      OF loop_body_agree ag]
  show "fst (for_loop [x..<x + spc] (loop_body u n edim x) a s) =
         fst (for_loop [x..<x + spc] (loop_body u n edim x) a t) \<and>
         agree (b \<or> \<not> isl (fst (for_loop [x..<x + spc] (loop_body u n edim x) a s)))
          (snd (for_loop [x..<x + spc] (loop_body u n edim x) a s))
          (snd (for_loop [x..<x + spc] (loop_body u n edim x) a t))"
    using ne by auto
qed

lemma finish_counters_agree:
  assumes "agree True s t"
  shows "fst (finish_counters n s) = fst (finish_counters n t) \<and>
         agree True (snd (finish_counters n s)) (snd (finish_counters n t))"
  using assms
  by (simp add: finish_counters_def agree_def attempt_in_def div_attr_def get_attr_def Let_def
      split: option.splits)

lemma range_step_nonempty:
  assumes "range_step 0 n spc = Inr starts"
  shows "0 < spc \<and> (0 < n \<longrightarrow> starts \<noteq> [])"
proof -
  have pos: "0 < spc" using assms by (auto simp: range_step_def split: if_splits)
  have "0 < (n + spc - 1) div spc" if "0 < n"
    using that pos by (simp add: div_greater_zero_iff)
  then show ?thesis using assms pos by (auto simp: range_step_def split: if_splits)
qed

lemma mb_loss_agree_gen:
  fixes s :: "'a state" and t :: "'b state"
  assumes ss: "same_settings s t" and b: "b \<longrightarrow> agree True s t"
  shows "fst (mb_loss u no yc s) = fst (mb_loss u no yc t) \<and>
     (b \<or> \<not> isl (fst (mb_loss u no yc s)) \<longrightarrow>
        agree True (snd (mb_loss u no yc s)) (snd (mb_loss u no yc t)))"
proof -
  obtain pc pe where no: "no = (pc, pe)" by (cases no) auto
  define n where "n = hd (shape pe)"
  define spc where "spc = samples_per_class (data (params s))"
  have spc_t: "samples_per_class (data (params t)) = spc"
    using ss by (simp add: same_settings_def spc_def)
  define s0 where "s0 = s\<lparr>true_pos := Some 0, true_neg := Some 0, false_pos := Some 0,
          false_neg := Some 0\<rparr>"
  define t0 where "t0 = t\<lparr>true_pos := Some 0, true_neg := Some 0, false_pos := Some 0,
          false_neg := Some 0\<rparr>"
  have ag0: "b \<longrightarrow> agree True s0 t0" using b by (simp add: agree_def s0_def t0_def)
  show ?thesis
  proof (cases "shape pe = [] \<or> n = 0 \<or> tl (shape pe) = []")
    case True
    then show ?thesis using b by (auto simp: mb_loss_def no n_def Let_def)
  next
    case False
    then have sh: "shape pe \<noteq> []" "n \<noteq> 0" "tl (shape pe) \<noteq> []" by auto
    show ?thesis
    proof (cases "length (shape pe) = 2")
      case False
      then show ?thesis using sh ag0 unfolding s0_def t0_def
        by (simp add: mb_loss_def no n_def Let_def)
    next
      case two: True
      show ?thesis
      proof (cases "squared_distances pe")
        case (Inl e)
        then show ?thesis using sh two ag0 unfolding s0_def t0_def
          by (simp add: mb_loss_def no n_def Let_def attempt_in_def)
      next
        case (Inr sq)
        define s1 where "s1 = s\<lparr>true_pos := Some 0, true_neg := Some 0, false_pos := Some 0,
            false_neg := Some 0, d_ij := Some (clamp_sqrt sq)\<rparr>"
        define t1 where "t1 = t\<lparr>true_pos := Some 0, true_neg := Some 0, false_pos := Some 0,
            false_neg := Some 0, d_ij := Some (clamp_sqrt sq)\<rparr>"
        have ag: "agree b s1 t1" using ss b
          by (auto simp: agree_def same_settings_def s1_def t1_def)
        have ms: "mb_loss u no yc s = attempt_in s1 (range_step 0 n spc) (\<lambda>starts.
            case pair_loops u n (shape pe ! 1) spc starts s1 of
              (Inl e, self) \<Rightarrow> (Inl e, self) | (Inr l, self) \<Rightarrow> finish_counters n self)"
          unfolding n_def s1_def spc_def using sh two Inr
          by (simp add: mb_loss_def no n_def Let_def attempt_in_def split: sum.splits)
        have mt: "mb_loss u no yc t = attempt_in t1 (range_step 0 n spc) (\<lambda>starts.
            case pair_loops u n (shape pe ! 1) spc starts t1 of
              (Inl e, self) \<Rightarrow> (Inl e, self) | (Inr l, self) \<Rightarrow> finish_counters n self)"
          unfolding n_def t1_def spc_t[symmetric] using sh two Inr
          by (simp add: mb_loss_def no n_def Let_def attempt_in_def split: sum.splits)
        show ?thesis
        proof (cases "range_step 0 n spc")
          case (Inl e)
          then show ?thesis using ag by (auto simp: ms mt attempt_in_def)
        next
          case (Inr starts)
          from range_step_nonempty[OF Inr] sh have pos: "0 < spc" and ne: "starts \<noteq> []" by auto
          obtain r s2 where ps: "pair_loops u n (shape pe ! 1) spc starts s1 = (r, s2)"
            by (cases "pair_loops u n (shape pe ! 1) spc starts s1") auto
          obtain r' t2 where pt: "pair_loops u n (shape pe ! 1) spc starts t1 = (r', t2)"
            by (cases "pair_loops u n (shape pe ! 1) spc starts t1") auto
          from pair_loops_agree[OF ag pos, of u n "shape pe ! 1" starts] ps pt ne
          have req: "r' = r" and ag2: "agree (b \<or> \<not> isl r) s2 t2" by auto
          show ?thesis
          proof (cases r)
            case (Inl e)
            then show ?thesis using Inr ps pt req ag2 by (auto simp: ms mt attempt_in_def)
          next
            case r: (Inr l)
            then have "agree True s2 t2" using ag2 by simp
            from finish_counters_agree[OF this, of n]
            show ?thesis using Inr ps pt req r by (simp add: ms mt attempt_in_def)
          qed
        qed
      qed
    qed
  qed
qed

lemma mb_loss_agree:
  fixes s :: "'a state" and t :: "'b state"
  assumes ss: "same_settings s t"
  shows "fst (mb_loss u no yc s) = fst (mb_loss u no yc t) \<and>
     (\<not> isl (fst (mb_loss u no yc s)) \<longrightarrow> agree True (snd (mb_loss u no yc s)) (snd (mb_loss u no yc t)))"
  using mb_loss_agree_gen[OF ss, of False u no yc] by simp

lemma outside_rest_of: "rest_of s = rest_of t \<Longrightarrow> outside s = outside t"
  by (simp add: outside_def)

lemma mb_loss_outside: "outside (snd (mb_loss u no yc s)) = outside s"
proof -
  obtain pc pe where no: "no = (pc, pe)" by (cases no) auto
  define n where "n = hd (shape pe)"
  define spc where "spc = samples_per_class (data (params s))"
  show ?thesis
  proof (cases "shape pe = [] \<or> n = 0 \<or> tl (shape pe) = [] \<or> length (shape pe) \<noteq> 2")
    case True
    then show ?thesis by (auto simp: mb_loss_def no n_def Let_def outside_def rest_of_def)
  next
    case False
    then have sh: "shape pe \<noteq> []" "n \<noteq> 0" "tl (shape pe) \<noteq> []" "length (shape pe) = 2" by auto
    show ?thesis
    proof (cases "squared_distances pe")
      case (Inl e)
      then show ?thesis using sh
        by (simp add: mb_loss_def no n_def Let_def attempt_in_def outside_def rest_of_def)
    next
      case (Inr sq)
      define s1 where "s1 = s\<lparr>true_pos := Some 0, true_neg := Some 0, false_pos := Some 0,
          false_neg := Some 0, d_ij := Some (clamp_sqrt sq)\<rparr>"
      have o1: "outside s1 = outside s" by (simp add: s1_def outside_def rest_of_def)
      have ms: "mb_loss u no yc s = attempt_in s1 (range_step 0 n spc) (\<lambda>starts.
          case pair_loops u n (shape pe ! 1) spc starts s1 of
            (Inl e, self) \<Rightarrow> (Inl e, self) | (Inr l, self) \<Rightarrow> finish_counters n self)"
        unfolding n_def s1_def spc_def using sh Inr
        by (simp add: mb_loss_def no n_def Let_def attempt_in_def split: sum.splits)
      show ?thesis
      proof (cases "range_step 0 n spc")
        case (Inl e)
        then show ?thesis using o1 by (simp add: ms attempt_in_def)
      next
        case (Inr starts)
        obtain r s2 where ps: "pair_loops u n (shape pe ! 1) spc starts s1 = (r, s2)"
          by (cases "pair_loops u n (shape pe ! 1) spc starts s1") auto
        have "rest_of s2 = rest_of s1"
          using pair_loops_frame[of u n "shape pe ! 1" spc starts s1] ps by simp
        then have o2: "outside s2 = outside s" using o1 outside_rest_of by metis
        have o3: "outside (snd (finish_counters n s2)) = outside s"
          using outside_rest_of[OF finish_counters_frame[of n s2]] o2 by simp
        show ?thesis using Inr ps o2 o3 by (cases r) (simp_all add: ms attempt_in_def)
      qed
    qed
  qed
qed

lemma l2_loss_agree:
  "classes_dict s = classes_dict t \<Longrightarrow> fst (l2_loss no yc s) = fst (l2_loss no yc t)"
  by (simp add: l2_loss_def classes_to_ids_def attempt_in_def Let_def split: sum.splits)

lemma l2_loss_same_settings: "same_settings (snd (l2_loss no yc s)) s"
  by (simp add: l2_loss_def attempt_in_def Let_def same_settings_def split: sum.splits)

lemma loss_eq:
  "fst (loss u no yc s) =
     (case fst (l2_loss no yc s) of Inl e \<Rightarrow> Inl e
      | Inr a \<Rightarrow> (case fst (mb_loss u no yc s) of Inl e \<Rightarrow> Inl e | Inr b \<Rightarrow> Inr (tadd a (Fin b))))"
proof -
  obtain r s1 where l2: "l2_loss no yc s = (r, s1)" by (cases "l2_loss no yc s") auto
  have "same_settings s1 s" using l2_loss_same_settings[of no yc s] l2 by simp
  from mb_loss_agree[OF this, of u no yc]
  have mb: "fst (mb_loss u no yc s1) = fst (mb_loss u no yc s)" by simp
  obtain r2 s2 where m: "mb_loss u no yc s1 = (r2, s2)" by (cases "mb_loss u no yc s1") auto
  show ?thesis using l2 m mb
    by (simp add: loss_def Let_def split: sum.splits prod.splits)
qed

lemma loss_agree:
  assumes "same_settings s t"
  shows "fst (loss u no yc s) = fst (loss u no yc t)"
  using mb_loss_agree[OF assms, of u no yc] l2_loss_agree[of s t no yc] assms
  by (auto simp: loss_eq same_settings_def split: sum.splits)

lemma kept_outside: "kept (outside s) = kept s"
  by (simp add: kept_def outside_def rest_of_def)

lemma mb_loss_kept: "kept (snd (mb_loss u no yc s)) = kept s"
  using mb_loss_outside[of u no yc s] kept_outside by metis

lemma l2_loss_kept: "kept (snd (l2_loss no yc s)) = kept s"
  by (simp add: l2_loss_def attempt_in_def Let_def kept_def split: sum.splits)

lemma loss_kept: "kept (snd (loss u no yc s)) = kept s"
proof -
  obtain r s1 where l2: "l2_loss no yc s = (r, s1)" by (cases "l2_loss no yc s") auto
  have k1: "kept s1 = kept s" using l2_loss_kept[of no yc s] l2 by simp
  obtain r2 s2 where m: "mb_loss u no yc s1 = (r2, s2)" by (cases "mb_loss u no yc s1") auto
  have k2: "kept s2 = kept s" using mb_loss_kept[of u no yc s1] m k1 by simp
  have k3: "kept (s2\<lparr>loss_val := x\<rparr>) = kept s" for x
    using k2 by (simp add: kept_def)
  show ?thesis using l2 m k1 k2 k3
    by (cases r; cases r2) (simp_all add: loss_def Let_def)
qed

lemma perform_kept: "kept (perform c s) = kept s"
proof (cases c)
  case (Call_l2_loss no yc) then show ?thesis by (simp add: l2_loss_kept)
next
  case (Call_mb_loss u no yc) then show ?thesis by (simp add: mb_loss_kept)
next
  case (Call_loss u no yc) then show ?thesis by (simp add: loss_kept)
qed (simp_all add: set_timer_def last_l2_loss_def last_mb_loss_def last_false_pos_def
      last_false_neg_def last_true_pos_def last_true_neg_def get_attr_def kept_def)

lemma perform_all_kept: "kept (perform_all cs s) = kept s"
  unfolding perform_all_def by (induction cs arbitrary: s) (simp_all add: perform_kept)

lemma kept_same_settings: "kept s = kept t \<Longrightarrow> same_settings s t"
  by (simp add: kept_def same_settings_def)


lemma outside_fields:
  assumes "outside s' = outside s"
  shows "device s' = device s \<and> classes s' = classes s \<and> classes_dict s' = classes_dict s \<and>
     timer s' = timer s \<and> l2_loss_val s' = l2_loss_val s \<and> loss_val s' = loss_val s \<and>
     stdout s' = stdout s \<and> params s' = params s \<and> lambda_rev s' = lambda_rev s \<and> model s' = model s"
proof -
  have "f (outside s') = f (outside s)" for f :: "'a state \<Rightarrow> 'b" using assms by simp
  from this[of device] this[of classes] this[of classes_dict] this[of timer] this[of l2_loss_val]
    this[of loss_val] this[of stdout] this[of params] this[of lambda_rev] this[of model]
  show ?thesis by (simp add: outside_def rest_of_def)
qed

lemma same_apart_settings:
  assumes "same_apart_from_model s t"
    "mb_loss_alpha (model s) = mb_loss_alpha (model t)" "mb_loss_beta (model s) = mb_loss_beta (model t)"
  shows "same_settings s t" "agree True s t"
  using assms by (simp_all add: same_apart_from_model_def same_settings_def agree_def)

lemma mb_loss_same_apart:
  fixes s :: "'a state" and t :: "'b state"
  assumes sa: "same_apart_from_model s t"
    and ab: "mb_loss_alpha (model s) = mb_loss_alpha (model t)" "mb_loss_beta (model s) = mb_loss_beta (model t)"
  shows "fst (mb_loss u no yc s) = fst (mb_loss u no yc t) \<and>
     same_apart_from_model (snd (mb_loss u no yc s)) (snd (mb_loss u no yc t)) \<and>
     mb_loss_alpha (model (snd (mb_loss u no yc s))) = mb_loss_alpha (model (snd (mb_loss u no yc t))) \<and>
     mb_loss_beta (model (snd (mb_loss u no yc s))) = mb_loss_beta (model (snd (mb_loss u no yc t)))"
proof -
  note st = same_apart_settings[OF sa ab]
  from mb_loss_agree_gen[OF st(1), of True u no yc] st(2)
  have eq: "fst (mb_loss u no yc s) = fst (mb_loss u no yc t)"
    and ag: "agree True (snd (mb_loss u no yc s)) (snd (mb_loss u no yc t))" by simp_all
  show ?thesis
    using eq ag sa outside_fields[OF mb_loss_outside[of u no yc s]]
      outside_fields[OF mb_loss_outside[of u no yc t]]
    by (simp add: same_apart_from_model_def agree_def)
qed

lemma loss_same_apart:
  fixes s :: "'a state" and t :: "'b state"
  assumes sa: "same_apart_from_model s t"
    and ab: "mb_loss_alpha (model s) = mb_loss_alpha (model t)" "mb_loss_beta (model s) = mb_loss_beta (model t)"
  shows "fst (loss u no yc s) = fst (loss u no yc t) \<and>
     same_apart_from_model (snd (loss u no yc s)) (snd (loss u no yc t))"
proof -
  have cd: "classes_dict s = classes_dict t" using sa by (simp add: same_apart_from_model_def)
  have ids: "classes_to_ids t yc ignore_index = classes_to_ids s yc ignore_index"
    using cd by (simp add: classes_to_ids_def)
  define c where "c = cross_entropy ignore_index (fst no) (classes_to_ids s yc ignore_index)"
  define s1 where "s1 = snd (l2_loss no yc s)"
  define t1 where "t1 = snd (l2_loss no yc t)"
  define r where "r = fst (l2_loss no yc s)"
  have ls: "l2_loss no yc s = (r, s1)" and lt: "l2_loss no yc t = (r, t1)"
    using l2_loss_agree[OF cd, of no yc] by (simp_all add: r_def s1_def t1_def prod_eq_iff)
  have sa1: "same_apart_from_model s1 t1 \<and> mb_loss_alpha (model s1) = mb_loss_alpha (model t1) \<and>
    mb_loss_beta (model s1) = mb_loss_beta (model t1)"
  proof (cases c)
    case (Inl e)
    then show ?thesis using sa ab unfolding s1_def t1_def c_def
      by (simp add: l2_loss_def attempt_in_def Let_def ids)
  next
    case (Inr v)
    then show ?thesis using sa ab unfolding s1_def t1_def c_def
      by (simp add: l2_loss_def attempt_in_def Let_def ids same_apart_from_model_def)
  qed
  then have sa1: "same_apart_from_model s1 t1" and ab1: "mb_loss_alpha (model s1) = mb_loss_alpha (model t1)"
    "mb_loss_beta (model s1) = mb_loss_beta (model t1)" by simp_all
  have req: "r = r" ..
  show ?thesis
  proof (cases r)
    case (Inl e)
    then show ?thesis using ls lt sa1 by (simp add: loss_def)
  next
    case (Inr a)
    obtain r2 s2 where ms: "mb_loss u no yc s1 = (r2, s2)" by (cases "mb_loss u no yc s1") auto
    obtain r2' t2 where mt: "mb_loss u no yc t1 = (r2', t2)" by (cases "mb_loss u no yc t1") auto
    from mb_loss_same_apart[OF sa1 ab1, of u no yc] ms mt
    have r2: "r2' = r2" and sa2: "same_apart_from_model s2 t2" by simp_all
    show ?thesis using ls lt Inr ms mt r2 sa2
      by (cases r2) (simp_all add: loss_def Let_def same_apart_from_model_def)
  qed
qed

subsection \<open>Class numbers and the cross-entropy\<close>

lemma fold_enumerate_notin:
  "c \<notin> set cs \<Longrightarrow> fold (\<lambda>(i, v) m. m(v \<mapsto> i)) (enumerate k cs) m c = m c"
  by (induction cs arbitrary: k m) auto

lemma fold_enumerate_nth:
  "distinct cs \<Longrightarrow> r < length cs \<Longrightarrow>
     fold (\<lambda>(i, v) m. m(v \<mapsto> i)) (enumerate k cs) m (cs ! r) = Some (k + r)"
proof (induction cs arbitrary: k m r)
  case Nil then show ?case by simp
next
  case (Cons x xs)
  show ?case
  proof (cases r)
    case 0
    have "x \<notin> set xs" using Cons.prems by simp
    from fold_enumerate_notin[OF this, of "Suc k" "m(x \<mapsto> k)"]
    have "fold (\<lambda>(i, v) m. m(v \<mapsto> i)) (enumerate (Suc k) xs) (m(x \<mapsto> k)) x = Some k"
      by simp
    then show ?thesis using 0 by (simp del: fun_upd_apply)
  next
    case (Suc r')
    then show ?thesis using Cons.prems Cons.IH[of r' "Suc k"] by (simp del: fun_upd_apply)
  qed
qed

lemma enumerate_dict_notin: "c \<notin> set cs \<Longrightarrow> enumerate_dict cs c = None"
  by (simp add: enumerate_dict_def fold_enumerate_notin)

lemma enumerate_dict_in:
  assumes "distinct cs" "c \<in> set cs"
  shows "\<exists>r. enumerate_dict cs c = Some r \<and> r < length cs \<and> cs ! r = c"
proof -
  from assms(2) obtain r where r: "r < length cs" "cs ! r = c" by (auto simp: in_set_conv_nth)
  then have "enumerate_dict cs c = Some r"
    using fold_enumerate_nth[OF assms(1) r(1), of 0 Map.empty] by (simp add: enumerate_dict_def)
  with r show ?thesis by blast
qed

lemma init_classes_dict:
  "init mdl cls dev ps out = Inr self \<Longrightarrow> classes_dict self = enumerate_dict (sort cls)"
  by (auto simp: init_def split: if_splits)

lemma kept_classes_dict: "kept s = kept t \<Longrightarrow> classes_dict s = classes_dict t"
  by (simp add: kept_def)

lemma zip_upt_nth: "length ys = n \<Longrightarrow> zip [0..<n] ys = map (\<lambda>i. (i, ys ! i)) [0..<n]"
  by (intro nth_equalityI) simp_all

lemma int_part_py_int: "int_part y c \<longleftrightarrow> py_int y = c"
proof (cases "0 \<le> y")
  case True
  show ?thesis
  proof
    assume h: "int_part y c"
    then have "0 \<le> c" using True by (auto simp: int_part_def)
    with h have "of_int c \<le> y" "y < of_int c + 1" using True by (auto simp: int_part_def)
    then have "\<lfloor>y\<rfloor> = c" by linarith
    then show "py_int y = c" using True by (simp add: py_int_def)
  next
    assume "py_int y = c"
    then have c: "c = \<lfloor>y\<rfloor>" using True by (simp add: py_int_def)
    have "0 \<le> \<lfloor>y\<rfloor>" using True by simp
    then show "int_part y c" unfolding c int_part_def by (simp; linarith)
  qed
next
  case False
  show ?thesis
  proof
    assume h: "int_part y c"
    then have "c \<le> 0" using False by (auto simp: int_part_def)
    with h have "y \<le> of_int c" "of_int c - 1 < y" using False by (auto simp: int_part_def)
    then have "\<lceil>y\<rceil> = c" by linarith
    then show "py_int y = c" using False by (simp add: py_int_def)
  next
    assume "py_int y = c"
    then have c: "c = \<lceil>y\<rceil>" using False by (simp add: py_int_def)
    have "\<lceil>y\<rceil> \<le> 0" using False by (simp add: ceiling_le_iff)
    then show "int_part y c" unfolding c int_part_def using False by (simp; linarith)
  qed
qed

lemma cross_entropy_cases:
  assumes sh: "shape x = [n, c]"
  shows "cross_entropy ign x (map g yc) =
     (if length yc \<noteq> n then Inl ValueError
      else if yc = [] then Inl RuntimeError
      else if \<exists>i<n. g (yc ! i) \<noteq> ign \<and> (g (yc ! i) < 0 \<or> int c \<le> g (yc ! i)) then Inl IndexError
      else Inr (let known = filter (\<lambda>i. g (yc ! i) \<noteq> ign) [0..<n]
                in if known = [] then NaN
                   else Fin ((\<Sum>i\<leftarrow>known. nll x i (nat (g (yc ! i)))) / real (length known))))"
proof (cases "length yc = n")
  case False
  then show ?thesis using sh by (simp add: cross_entropy_def)
next
  case len: True
  have bad: "(\<exists>t\<in>set (map g yc). t \<noteq> ign \<and> (t < 0 \<or> int c \<le> t)) \<longleftrightarrow>
      (\<exists>i<n. g (yc ! i) \<noteq> ign \<and> (g (yc ! i) < 0 \<or> int c \<le> g (yc ! i)))"
  proof
    assume "\<exists>t\<in>set (map g yc). t \<noteq> ign \<and> (t < 0 \<or> int c \<le> t)"
    then obtain y where "y \<in> set yc" "g y \<noteq> ign \<and> (g y < 0 \<or> int c \<le> g y)" by auto
    then show "\<exists>i<n. g (yc ! i) \<noteq> ign \<and> (g (yc ! i) < 0 \<or> int c \<le> g (yc ! i))"
      using len by (auto simp: in_set_conv_nth)
  next
    assume "\<exists>i<n. g (yc ! i) \<noteq> ign \<and> (g (yc ! i) < 0 \<or> int c \<le> g (yc ! i))"
    then obtain i where i: "i < n" "g (yc ! i) \<noteq> ign \<and> (g (yc ! i) < 0 \<or> int c \<le> g (yc ! i))"
      by blast
    then have "g (yc ! i) \<in> set (map g yc)" using len by simp
    with i(2) show "\<exists>t\<in>set (map g yc). t \<noteq> ign \<and> (t < 0 \<or> int c \<le> t)" by blast
  qed
  have z: "zip [0..<n] (map g yc) = map (\<lambda>i. (i, g (yc ! i))) [0..<n]"
    using len by (simp add: zip_upt_nth)
  have f: "filter (\<lambda>(i, t). t \<noteq> ign) (zip [0..<n] (map g yc)) =
      map (\<lambda>i. (i, g (yc ! i))) (filter (\<lambda>i. g (yc ! i) \<noteq> ign) [0..<n])"
    unfolding z by (simp add: filter_map comp_def)
  have "cross_entropy ign x (map g yc) =
     (if yc = [] then Inl RuntimeError
      else if \<exists>t\<in>set (map g yc). t \<noteq> ign \<and> (t < 0 \<or> int c \<le> t) then Inl IndexError
      else Inr (let kept = filter (\<lambda>(i, t). t \<noteq> ign) (zip [0..<n] (map g yc))
          in if kept = [] then NaN
             else Fin ((\<Sum>(i, t)\<leftarrow>kept. nll x i (nat t)) / real (length kept))))"
    using sh len by (simp add: cross_entropy_def Let_def del: set_map) blast
  then show ?thesis
    unfolding f bad using len by (simp add: Let_def comp_def) blast
qed


subsection \<open>The sampling loop\<close>

lemma pair_loops_rule:
  assumes spc: "0 < spc"
    and step: "\<And>i a s. i < m * spc \<Longrightarrow> I i a s \<Longrightarrow>
      (case loop_body u n edim (i div spc * spc) i a s of
         (Inl e, s') \<Rightarrow> Q e s' | (Inr a', s') \<Rightarrow> I (Suc i) a' s')"
    and init: "I 0 0 s"
  shows "case pair_loops u n edim spc (map (\<lambda>q. q * spc) [0..<m]) s of
           (Inl e, s') \<Rightarrow> Q e s' | (Inr a', s') \<Rightarrow> I (m * spc) a' s'"
proof -
  have inner: "case for_loop [q * spc..<q * spc + spc] (loop_body u n edim (q * spc)) a s of
       (Inl e, s') \<Rightarrow> Q e s' | (Inr a', s') \<Rightarrow> I (Suc q * spc) a' s'"
    if q: "q < m" and iq: "I (q * spc) a s" for q a s
  proof -
    have "case for_loop [q * spc..<q * spc + spc] (loop_body u n edim (q * spc)) a s of
       (Inl e, s') \<Rightarrow> Q e s'
       | (Inr a', s') \<Rightarrow> I (q * spc + length [q * spc..<q * spc + spc]) a' s'"
    proof (rule for_loop_rule[where I = "\<lambda>t. I (q * spc + t)"])
      fix t a s assume t: "t < length [q * spc..<q * spc + spc]" and it: "I (q * spc + t) a s"
      then have t': "t < spc" by simp
      have lt: "q * spc + t < m * spc" using t' q by (rule_tac flat_index_less)
      have dv: "(q * spc + t) div spc * spc = q * spc" using t' by simp
      from step[OF lt it] t' dv
      show "case loop_body u n edim (q * spc) ([q * spc..<q * spc + spc] ! t) a s of
          (Inl e, s') \<Rightarrow> Q e s' | (Inr a', s') \<Rightarrow> I (q * spc + Suc t) a' s'"
        by (simp split: prod.splits sum.splits)
    qed (simp add: iq)
    then show ?thesis by (simp add: add.commute split: prod.splits sum.splits)
  qed
  have "case for_loop (map (\<lambda>q. q * spc) [0..<m])
          (\<lambda>i_start. for_loop [i_start..<i_start + spc] (loop_body u n edim i_start)) 0 s of
       (Inl e, s') \<Rightarrow> Q e s'
       | (Inr a', s') \<Rightarrow> I (length (map (\<lambda>q. q * spc) [0..<m]) * spc) a' s'"
  proof (rule for_loop_rule[where I = "\<lambda>q. I (q * spc)"])
    fix q a s assume "q < length (map (\<lambda>q. q * spc) [0..<m])" "I (q * spc) a s"
    then show "case for_loop [map (\<lambda>q. q * spc) [0..<m] ! q..<map (\<lambda>q. q * spc) [0..<m] ! q + spc]
            (loop_body u n edim (map (\<lambda>q. q * spc) [0..<m] ! q)) a s of
       (Inl e, s') \<Rightarrow> Q e s' | (Inr a', s') \<Rightarrow> I (Suc q * spc) a' s'"
      using inner[of q a s] by simp
  qed (simp add: init)
  then show ?thesis by (simp add: pair_loops_def split: prod.splits sum.splits)
qed

lemma range_step_multiple:
  "0 < spc \<Longrightarrow> range_step 0 (m * spc) spc = Inr (map (\<lambda>q. q * spc) [0..<m])"
proof -
  assume p: "0 < spc"
  have "(m * spc + spc - 1) div spc = m"
  proof -
    obtain k where k: "spc = Suc k" using p by (cases spc) auto
    have e: "m * spc + spc - 1 = k + m * spc" using k by simp
    have "k < spc" using k by simp
    then have "(k + m * spc) div spc = m" by simp
    then show ?thesis unfolding e .
  qed
  then show ?thesis using p by (simp add: range_step_def)
qed

lemma record_pair_ready:
  assumes "false_neg s = Some fn" "true_pos s = Some tp" "false_pos s = Some fp" "true_neg s = Some tn"
  shows "record_pair n i_start i_end l d s =
    (Inr l, s\<lparr>mb_loss_val := Some (l / real n),
       false_neg := Some (fn + sum_list (slice (neg_ind (mb_loss_beta (model s)) d) i_start i_end)),
       true_pos := Some (tp + sum_list (slice (pos_ind (mb_loss_beta (model s)) d) i_start i_end)),
       false_pos := Some (fp + (sum_list (take i_start (pos_ind (mb_loss_beta (model s)) d))
                              + sum_list (drop i_end (pos_ind (mb_loss_beta (model s)) d)))),
       true_neg := Some (tn + (sum_list (take i_start (neg_ind (mb_loss_beta (model s)) d))
                              + sum_list (drop i_end (neg_ind (mb_loss_beta (model s)) d))))\<rparr>)"
  using assms
  by (simp add: record_pair_def attempt_in_def add_attr_def Let_def neg_ind_def pos_ind_def)

lemma ind_sum:
  fixes beta :: real
  shows "sum_list (map (\<lambda>x. if x > beta then 1 else 0) d) + sum_list (map (\<lambda>x. if x \<le> beta then 1 else (0::real)) d)
     = real (length d)"
  by (induction d) auto

lemma ind_slice_sum:
  "sum_list (slice (neg_ind beta d) a b) + sum_list (slice (pos_ind beta d) a b) = real (length (slice d a b))"
  using ind_sum[of beta "slice d a b"]
  by (simp add: slice_def neg_ind_def pos_ind_def take_map drop_map)

lemma ind_take_sum:
  "sum_list (take a (neg_ind beta d)) + sum_list (take a (pos_ind beta d)) = real (length (take a d))"
  using ind_sum[of beta "take a d"]
  by (simp add: neg_ind_def pos_ind_def take_map)

lemma ind_drop_sum:
  "sum_list (drop a (neg_ind beta d)) + sum_list (drop a (pos_ind beta d)) = real (length (drop a d))"
  using ind_sum[of beta "drop a d"]
  by (simp add: neg_ind_def pos_ind_def drop_map)

lemma sample_pair_row:
  "sample_pair u n edim spc lam alpha beta dm i_start i l = Inr (l', d, j, k) \<Longrightarrow> get_row dm i = Inr d"
  by (auto simp: sample_pair_def attempt_def Let_def split: sum.splits if_splits)

lemma rest_of_fields:
  assumes "rest_of s' = rest_of s"
  shows "d_ij s' = d_ij s \<and> params s' = params s \<and> lambda_rev s' = lambda_rev s \<and> model s' = model s"
proof -
  have "f (rest_of s') = f (rest_of s)" for f :: "'a state \<Rightarrow> 'b" using assms by simp
  from this[of d_ij] this[of params] this[of lambda_rev] this[of model]
  show ?thesis by (simp add: rest_of_def)
qed

lemma block_end_le:
  assumes "i < m * spc"
  shows "i div spc * spc + spc \<le> m * (spc::nat)"
proof -
  have "0 < spc" using assms by (cases spc) auto
  then have "i div spc < m" using assms by (simp add: less_mult_imp_div_less)
  then have "Suc (i div spc) * spc \<le> m * spc" by (intro mult_le_mono1) simp
  then show ?thesis by (simp add: add.commute)
qed

text \<open>What an iteration that returns has done to the counters.\<close>

lemma loop_body_counts:
  assumes d: "d_ij s = Some (tensor2 n n f)"
    and c: "false_neg s = Some fn" "true_pos s = Some tp" "false_pos s = Some fp" "true_neg s = Some tn"
    and full: "i_start + samples_per_class (data (params s)) \<le> n"
    and run: "loop_body u n edim i_start i l s = (Inr l', s')"
  shows "\<exists>fn' tp' fp' tn'. false_neg s' = Some fn' \<and> true_pos s' = Some tp' \<and>
      false_pos s' = Some fp' \<and> true_neg s' = Some tn' \<and>
      tp' + fn' = tp + fn + real (samples_per_class (data (params s))) \<and>
      tn' + fp' = tn + fp + real (n - samples_per_class (data (params s))) \<and>
      mb_loss_val s' = Some (l' / real n)"
proof -
  let ?spc = "samples_per_class (data (params s))"
  let ?sp = "sample_pair u n edim ?spc (lambda_rev s) (mb_loss_alpha (model s))
      (mb_loss_beta (model s)) (tensor2 n n f) i_start i l"
  obtain l1 dd j k where sp: "?sp = Inr (l1, dd, j, k)"
    using run d by (cases ?sp) (auto simp: loop_body_def attempt_in_def read_attr_def)
  have row: "get_row (tensor2 n n f) i = Inr dd" using sample_pair_row[OF sp] .
  then have len: "length dd = n" by (auto simp: get_row_tensor2 split: if_splits)
  let ?b = "mb_loss_beta (model s)"
  have rp: "record_pair n i_start (i_start + ?spc) l1 dd s = (Inr l', s')"
    using run d sp by (simp add: loop_body_def attempt_in_def read_attr_def)
  note rr = record_pair_ready[OF c, of n i_start "i_start + ?spc" l1 dd]
  have s': "s' = s\<lparr>mb_loss_val := Some (l1 / real n),
       false_neg := Some (fn + sum_list (slice (neg_ind ?b dd) i_start (i_start + ?spc))),
       true_pos := Some (tp + sum_list (slice (pos_ind ?b dd) i_start (i_start + ?spc))),
       false_pos := Some (fp + (sum_list (take i_start (pos_ind ?b dd))
                              + sum_list (drop (i_start + ?spc) (pos_ind ?b dd)))),
       true_neg := Some (tn + (sum_list (take i_start (neg_ind ?b dd))
                              + sum_list (drop (i_start + ?spc) (neg_ind ?b dd))))\<rparr>"
    and l': "l' = l1"
    using rp rr by auto
  have a: "sum_list (slice (neg_ind ?b dd) i_start (i_start + ?spc)) +
        sum_list (slice (pos_ind ?b dd) i_start (i_start + ?spc)) = real ?spc"
    using ind_slice_sum[of ?b dd i_start "i_start + ?spc"] len full by (simp add: length_slice)
  have b1: "sum_list (take i_start (neg_ind ?b dd)) + sum_list (take i_start (pos_ind ?b dd)) = real i_start"
    using ind_take_sum[of i_start ?b dd] len full by simp
  have b2: "sum_list (drop (i_start + ?spc) (neg_ind ?b dd)) + sum_list (drop (i_start + ?spc) (pos_ind ?b dd))
      = real (n - (i_start + ?spc))"
    using ind_drop_sum[of "i_start + ?spc" ?b dd] len by simp
  have b3: "real i_start + real (n - (i_start + ?spc)) = real (n - ?spc)"
    using full by simp
  show ?thesis
    unfolding s' l' using a b1 b2 b3 by (simp add: algebra_simps)
qed

lemma finish_counters_ready:
  assumes "false_neg s = Some fn" "true_pos s = Some tp" "false_pos s = Some fp" "true_neg s = Some tn"
    and "mb_loss_val s = Some x" "0 < n"
  shows "finish_counters n s = (Inr x, s\<lparr>true_pos := Some (tp / real n), true_neg := Some (tn / real n),
      false_pos := Some (fp / real n), false_neg := Some (fn / real n)\<rparr>)"
  using assms
  by (simp add: finish_counters_def attempt_in_def div_attr_def get_attr_def read_attr_def Let_def)

lemma mb_loss_run:
  assumes sh: "shape pe = [n, d]" "wf_tensor pe"
    and mult: "n = m * samples_per_class (data (params self))" "2 \<le> m"
    and spc2: "2 \<le> samples_per_class (data (params self))"
    and draws: "\<forall>k. 0 \<le> u k \<and> u k < 1"
  shows "\<exists>J K.
     (\<forall>i<n. i div samples_per_class (data (params self)) * samples_per_class (data (params self)) \<le> J i \<and>
         J i < i div samples_per_class (data (params self)) * samples_per_class (data (params self))
                 + samples_per_class (data (params self)) \<and>
         J i \<noteq> i \<and> K i < n \<and>
         \<not> (i div samples_per_class (data (params self)) * samples_per_class (data (params self)) \<le> K i \<and>
            K i < i div samples_per_class (data (params self)) * samples_per_class (data (params self))
                 + samples_per_class (data (params self))) \<and>
         (\<forall>l. sample_pair u n d (samples_per_class (data (params self))) (lambda_rev self)
               (mb_loss_alpha (model self)) (mb_loss_beta (model self)) (tensor2 n n (dist_entry pe))
               (i div samples_per_class (data (params self)) * samples_per_class (data (params self))) i l =
            Inr (l + hinge_terms (mb_loss_alpha (model self)) (mb_loss_beta (model self)) (dist_entry pe) J K i,
                 map (dist_entry pe i) [0..<n], J i, K i))) \<and>
     fst (mb_loss u (pc, pe) yc self) =
       Inr ((\<Sum>i\<leftarrow>[0..<n]. hinge_terms (mb_loss_alpha (model self)) (mb_loss_beta (model self))
                (dist_entry pe) J K i) / real n)"
proof -
  define spc where "spc = samples_per_class (data (params self))"
  define lam where "lam = lambda_rev self"
  define alpha where "alpha = mb_loss_alpha (model self)"
  define beta where "beta = mb_loss_beta (model self)"
  define f where "f = dist_entry pe"
  have spos: "0 < spc" using spc2 by (simp add: spc_def)
  have n: "n = m * spc" using mult by (simp add: spc_def)
  have npos: "0 < n" using n mult(2) spos by simp
  have spn: "spc < n" using n mult(2) spos by (cases m) auto
  define P where "P = (\<lambda>i j k. i div spc * spc \<le> j \<and> j < i div spc * spc + spc \<and> j \<noteq> i \<and> k < n \<and>
        \<not> (i div spc * spc \<le> k \<and> k < i div spc * spc + spc) \<and>
        (\<forall>l. sample_pair u n d spc lam alpha beta (tensor2 n n f) (i div spc * spc) i l =
           Inr (l + max (alpha + (f i j - beta)) 0 + max (alpha - (f i k - beta)) 0,
                map (f i) [0..<n], j, k)))"
  have ex: "\<exists>jk. i < n \<longrightarrow> P i (fst jk) (snd jk)" for i
  proof (cases "i < n")
    case True
    have full: "i div spc * spc + spc \<le> n" using block_end_le[of i m spc] True n by simp
    have lo: "i div spc * spc \<le> i" by simp
    have hi: "i < i div spc * spc + spc" using spos
      by (metis div_mult_mod_eq mod_less_divisor nat_add_left_cancel_less)
    from sample_pair_ok[OF draws full lo hi _ spn, of d lam alpha beta f] spc2
    obtain j k where "P i j k" unfolding P_def spc_def by blast
    then show ?thesis by (intro exI[of _ "(j, k)"]) simp
  next
    case False then show ?thesis by simp
  qed
  then obtain JK where JK: "\<forall>i. i < n \<longrightarrow> P i (fst (JK i)) (snd (JK i))"
    using choice[of "\<lambda>i jk. i < n \<longrightarrow> P i (fst jk) (snd jk)"] by blast
  define J where "J = (\<lambda>i. fst (JK i))"
  define K where "K = (\<lambda>i. snd (JK i))"
  have PJK: "P i (J i) (K i)" if "i < n" for i using JK that by (simp add: J_def K_def)
  define tm where "tm = hinge_terms alpha beta f J K"
  have sp: "sample_pair u n d spc lam alpha beta (tensor2 n n f) (i div spc * spc) i l =
      Inr (l + tm i, map (f i) [0..<n], J i, K i)" if "i < n" for i l
    using PJK[OF that] by (simp add: P_def tm_def hinge_terms_def add.assoc)
  define s1 where "s1 = self\<lparr>true_pos := Some 0, true_neg := Some 0, false_pos := Some 0,
      false_neg := Some 0, d_ij := Some (tensor2 n n f)\<rparr>"
  have rs: "range_step 0 n spc = Inr (map (\<lambda>q. q * spc) [0..<m])"
    unfolding n by (rule range_step_multiple[OF spos])
  obtain r s2 where pl: "pair_loops u n d spc (map (\<lambda>q. q * spc) [0..<m]) s1 = (r, s2)"
    by (cases "pair_loops u n d spc (map (\<lambda>q. q * spc) [0..<m]) s1") auto
  have mb: "mb_loss u (pc, pe) yc self =
      (case r of Inl e \<Rightarrow> (Inl e, s2) | Inr l \<Rightarrow> finish_counters n s2)"
    unfolding mb_loss_2d[OF sh npos] Let_def s1_def[symmetric] f_def[symmetric] spc_def[symmetric] rs
    by (simp add: attempt_in_def pl split: sum.splits)
  define I where "I = (\<lambda>t (a::real) s. rest_of s = rest_of s1 \<and>
      (\<exists>fn tp fp tn. false_neg s = Some fn \<and> true_pos s = Some tp \<and>
         false_pos s = Some fp \<and> true_neg s = Some tn) \<and>
      a = (\<Sum>i\<leftarrow>[0..<t]. tm i) \<and>
      (0 < t \<longrightarrow> mb_loss_val s = Some (a / real n)))"
  have "case pair_loops u n d spc (map (\<lambda>q. q * spc) [0..<m]) s1 of
           (Inl e, s') \<Rightarrow> False | (Inr a', s') \<Rightarrow> I (m * spc) a' s'"
  proof (rule pair_loops_rule[OF spos, where I = I and Q = "\<lambda>_ _. False"])
    show "I 0 0 s1" by (simp add: I_def s1_def)
  next
    fix i a s assume i: "i < m * spc" and inv: "I i a s"
    then have iltn: "i < n" by (simp add: n)
    from inv have fr: "rest_of s = rest_of s1" by (simp add: I_def)
    note ff = rest_of_fields[OF fr]
    have ds: "d_ij s = Some (tensor2 n n f)" and ps: "samples_per_class (data (params s)) = spc"
      and ls: "lambda_rev s = lam" and al: "mb_loss_alpha (model s) = alpha"
      and be: "mb_loss_beta (model s) = beta"
      using ff by (simp_all add: s1_def spc_def lam_def alpha_def beta_def)
    from inv obtain fn tp fp tn where c: "false_neg s = Some fn" "true_pos s = Some tp"
         "false_pos s = Some fp" "true_neg s = Some tn"
      and a: "a = (\<Sum>i\<leftarrow>[0..<i]. tm i)"
      by (auto simp: I_def)
    have lb: "loop_body u n d (i div spc * spc) i a s =
        record_pair n (i div spc * spc) (i div spc * spc + spc) (a + tm i) (map (f i) [0..<n]) s"
      using ds by (simp add: loop_body_def attempt_in_def read_attr_def ps ls al be sp[OF iltn])
    note rr = record_pair_ready[OF c, of n "i div spc * spc" "i div spc * spc + spc" "a + tm i"
        "map (f i) [0..<n]"]
    have "I (Suc i) (a + tm i) (snd (loop_body u n d (i div spc * spc) i a s))"
      unfolding lb rr I_def using fr a by (simp add: rest_of_def)
    then show "case loop_body u n d (i div spc * spc) i a s of
         (Inl e, s') \<Rightarrow> False | (Inr a', s') \<Rightarrow> I (Suc i) a' s'"
      unfolding lb rr by simp
  qed
  with pl obtain l where r: "r = Inr l" and inv: "I n l s2" by (cases r) (auto simp: n)
  then obtain fn tp fp tn where c: "false_neg s2 = Some fn" "true_pos s2 = Some tp"
         "false_pos s2 = Some fp" "true_neg s2 = Some tn"
         and l: "l = (\<Sum>i\<leftarrow>[0..<n]. tm i)"
         and mv: "mb_loss_val s2 = Some (l / real n)"
    using npos by (auto simp: I_def)
  have fin: "fst (mb_loss u (pc, pe) yc self) = Inr ((\<Sum>i\<leftarrow>[0..<n]. tm i) / real n)"
    using mb r finish_counters_ready[OF c mv npos] l by simp
  have props: "\<forall>i<n. i div spc * spc \<le> J i \<and> J i < i div spc * spc + spc \<and> J i \<noteq> i \<and> K i < n \<and>
         \<not> (i div spc * spc \<le> K i \<and> K i < i div spc * spc + spc) \<and>
         (\<forall>l. sample_pair u n d spc lam alpha beta (tensor2 n n f) (i div spc * spc) i l =
            Inr (l + hinge_terms alpha beta f J K i, map (f i) [0..<n], J i, K i))"
    using PJK sp by (simp add: P_def tm_def)
  show ?thesis
    using props fin
    unfolding spc_def lam_def alpha_def beta_def f_def tm_def
    by (intro exI[of _ J] exI[of _ K]) simp
qed

lemma multiple_blocks:
  assumes "spc dvd n" "spc < n" "2 \<le> (spc::nat)"
  obtains m where "n = m * spc" "2 \<le> m"
proof -
  from assms(1) obtain m where m: "n = m * spc" by (auto simp: dvd_def mult.commute)
  have "2 \<le> m"
  proof (rule ccontr)
    assume "\<not> 2 \<le> m"
    then have "m = 0 \<or> m = 1" by auto
    then show False using m assms(2) by auto
  qed
  with m show ?thesis by (rule that)
qed

lemma mb_loss_d_ij:
  assumes "shape pe = [n, d]" "wf_tensor pe" "0 < n"
  shows "d_ij (snd (mb_loss u (pc, pe) yc self)) = Some (tensor2 n n (dist_entry pe))"
proof -
  have "d_ij (rest_of (snd (mb_loss u (pc, pe) yc self))) = Some (tensor2 n n (dist_entry pe))"
    unfolding mb_loss_rest[OF assms] by (simp add: rest_of_def)
  then show ?thesis by (simp add: d_ij_rest_of)
qed

lemma mb_loss_succeeds:
  assumes sh: "shape pe = [n, d]" "wf_tensor pe"
    and dv: "samples_per_class (data (params self)) dvd n"
    and gt: "samples_per_class (data (params self)) < n"
    and spc2: "2 \<le> samples_per_class (data (params self))"
    and draws: "\<forall>k. 0 \<le> u k \<and> u k < 1"
  shows "\<exists>v. fst (mb_loss u (pc, pe) yc self) = Inr v"
proof -
  obtain m where m: "n = m * samples_per_class (data (params self))" "2 \<le> m"
    using multiple_blocks[OF dv gt spc2] by blast
  from mb_loss_run[OF sh m spc2 draws, of pc yc] show ?thesis by blast
qed

subsection \<open>What a call on a two-dimensional batch can raise\<close>

lemma sample_pair_partial:
  assumes "i_start < n" "n < i_start + spc"
  shows "sample_pair u n edim spc lam alpha beta (tensor2 n n f) i_start i_start l = Inl ValueError"
proof -
  define ws where "ws = slice (wts lam edim n f i_start) i_start (i_start + spc)"
  have len: "length ws \<noteq> length [i_start..<i_start + spc]"
    using assms by (simp add: ws_def length_slice)
  have "random_choice [i_start..<i_start + spc] (np_divide ws (sum_list ws)) x = Inl ValueError" for x
    using len by (auto simp: random_choice_def np_divide_def split: option.splits)
  then show ?thesis
    unfolding sample_pair_unfold[OF assms(1)] ws_def by (simp add: attempt_def)
qed

lemma loop_body_outcome:
  assumes draws: "\<forall>k. 0 \<le> u k \<and> u k < 1"
    and d: "d_ij s = Some (tensor2 n n f)" and c: "counters_set s"
    and full: "i_start + samples_per_class (data (params s)) \<le> n"
    and i: "i_start \<le> i" "i < i_start + samples_per_class (data (params s))"
  shows "case loop_body u n edim i_start i l s of
           (Inl e, s') \<Rightarrow> e = ValueError
         | (Inr l', s') \<Rightarrow> rest_of s' = rest_of s \<and> counters_set s' \<and> mb_loss_val s' \<noteq> None"
proof -
  let ?spc = "samples_per_class (data (params s))"
  let ?sp = "sample_pair u n edim ?spc (lambda_rev s) (mb_loss_alpha (model s))
      (mb_loss_beta (model s)) (tensor2 n n f) i_start i l"
  from c obtain fn tp fp tn where cs: "false_neg s = Some fn" "true_pos s = Some tp"
      "false_pos s = Some fp" "true_neg s = Some tn"
    by (auto simp: counters_set_def)
  from sample_pair_cases[OF draws full i, of edim "lambda_rev s" "mb_loss_alpha (model s)"
      "mb_loss_beta (model s)" f]
  show ?thesis
  proof (elim disjE exE conjE)
    assume "\<forall>l. sample_pair u n edim ?spc (lambda_rev s) (mb_loss_alpha (model s))
      (mb_loss_beta (model s)) (tensor2 n n f) i_start i l = Inl ValueError"
    then show ?thesis using d by (simp add: loop_body_def attempt_in_def read_attr_def)
  next
    fix j k
    assume "\<forall>l. sample_pair u n edim ?spc (lambda_rev s) (mb_loss_alpha (model s))
      (mb_loss_beta (model s)) (tensor2 n n f) i_start i l =
        Inr (l + max (mb_loss_alpha (model s) + (f i j - mb_loss_beta (model s))) 0 +
             max (mb_loss_alpha (model s) - (f i k - mb_loss_beta (model s))) 0, map (f i) [0..<n], j, k)"
    then have lb: "loop_body u n edim i_start i l s =
        record_pair n i_start (i_start + ?spc)
          (l + max (mb_loss_alpha (model s) + (f i j - mb_loss_beta (model s))) 0 +
             max (mb_loss_alpha (model s) - (f i k - mb_loss_beta (model s))) 0) (map (f i) [0..<n]) s"
      using d by (simp add: loop_body_def attempt_in_def read_attr_def)
    show ?thesis
      unfolding lb record_pair_ready[OF cs]
      by (simp add: rest_of_def counters_set_def)
  qed
qed

lemma block_outcome:
  assumes draws: "\<forall>k. 0 \<le> u k \<and> u k < 1"
    and d: "d_ij s = Some (tensor2 n n f)" and c: "counters_set s"
    and spc: "0 < samples_per_class (data (params s))" and st: "i_start < n"
  shows "case for_loop [i_start..<i_start + samples_per_class (data (params s))]
                (loop_body u n edim i_start) l s of
           (Inl e, s') \<Rightarrow> e = ValueError
         | (Inr l', s') \<Rightarrow> rest_of s' = rest_of s \<and> counters_set s' \<and> mb_loss_val s' \<noteq> None"
proof (cases "i_start + samples_per_class (data (params s)) \<le> n")
  case False
  let ?spc = "samples_per_class (data (params s))"
  have up: "[i_start..<i_start + ?spc] = i_start # [Suc i_start..<i_start + ?spc]"
    using spc by (simp add: upt_conv_Cons)
  have "loop_body u n edim i_start i_start l s = (Inl ValueError, s)"
    using sample_pair_partial[of i_start n ?spc u edim "lambda_rev s" "mb_loss_alpha (model s)"
        "mb_loss_beta (model s)" f l] st False d
    by (simp add: loop_body_def attempt_in_def read_attr_def)
  then show ?thesis unfolding up by simp
next
  case full: True
  let ?spc = "samples_per_class (data (params s))"
  define I where "I = (\<lambda>(t::nat) (a::real) s'. rest_of s' = rest_of s \<and> counters_set s' \<and>
      (0 < t \<longrightarrow> mb_loss_val s' \<noteq> None))"
  have "case for_loop [i_start..<i_start + ?spc] (loop_body u n edim i_start) l s of
           (Inl e, s') \<Rightarrow> e = ValueError
         | (Inr l', s') \<Rightarrow> I (length [i_start..<i_start + ?spc]) l' s'"
  proof (rule for_loop_rule[where I = I and Q = "\<lambda>e _. e = ValueError"])
    show "I 0 l s" using c by (simp add: I_def)
  next
    fix t a s' assume t: "t < length [i_start..<i_start + ?spc]" and inv: "I t a s'"
    from inv have fr: "rest_of s' = rest_of s" and c': "counters_set s'" by (simp_all add: I_def)
    note ff = rest_of_fields[OF fr]
    have d': "d_ij s' = Some (tensor2 n n f)" using ff d by simp
    have ps: "samples_per_class (data (params s')) = ?spc" using ff by simp
    have el: "[i_start..<i_start + ?spc] ! t = i_start + t" using t by simp
    from loop_body_outcome[OF draws d' c', of i_start "i_start + t" edim a] full t
    have "case loop_body u n edim i_start (i_start + t) a s' of
           (Inl e, s'') \<Rightarrow> e = ValueError
         | (Inr l', s'') \<Rightarrow> rest_of s'' = rest_of s' \<and> counters_set s'' \<and> mb_loss_val s'' \<noteq> None"
      by (simp add: ps)
    then show "case loop_body u n edim i_start ([i_start..<i_start + ?spc] ! t) a s' of
           (Inl e, s'') \<Rightarrow> e = ValueError | (Inr a', s'') \<Rightarrow> I (Suc t) a' s''"
      unfolding el I_def using fr by (auto split: prod.splits sum.splits)
  qed
  then show ?thesis using spc by (auto simp: I_def split: prod.splits sum.splits)
qed

lemma range_step_below:
  assumes "range_step 0 n spc = Inr starts" "x \<in> set starts"
  shows "x < n"
proof -
  have pos: "0 < spc" using assms(1) by (auto simp: range_step_def split: if_splits)
  from assms obtain q where q: "q < (n + spc - 1) div spc" "x = q * spc"
    by (auto simp: range_step_def split: if_splits)
  have "q * spc + spc \<le> n + spc - 1"
  proof -
    have "Suc q \<le> (n + spc - 1) div spc" using q(1) by simp
    then have "Suc q * spc \<le> n + spc - 1" using pos by (simp add: less_eq_div_iff_mult_less_eq)
    then show ?thesis by (simp add: add.commute)
  qed
  then show ?thesis using q(2) pos by simp
qed

lemma mb_loss_outcome:
  assumes sh: "shape pe = [n, d]" "wf_tensor pe" and npos: "0 < n"
    and draws: "\<forall>k. 0 \<le> u k \<and> u k < 1"
  shows "(\<exists>v. fst (mb_loss u (pc, pe) yc self) = Inr v) \<or>
     fst (mb_loss u (pc, pe) yc self) = Inl ValueError"
proof -
  let ?spc = "samples_per_class (data (params self))"
  let ?f = "dist_entry pe"
  define s1 where "s1 = self\<lparr>true_pos := Some 0, true_neg := Some 0, false_pos := Some 0,
      false_neg := Some 0, d_ij := Some (tensor2 n n ?f)\<rparr>"
  note mb = mb_loss_2d[OF sh npos, of u pc yc self, unfolded Let_def, folded s1_def]
  show ?thesis
  proof (cases "range_step 0 n ?spc")
    case (Inl e)
    then have "e = ValueError" by (auto simp: range_step_def split: if_splits)
    then show ?thesis using Inl by (simp add: mb attempt_in_def)
  next
    case (Inr starts)
    from range_step_nonempty[OF Inr] npos have spos: "0 < ?spc" and ne: "starts \<noteq> []" by auto
    define I where "I = (\<lambda>(t::nat) (a::real) s'. rest_of s' = rest_of s1 \<and> counters_set s' \<and>
      (0 < t \<longrightarrow> mb_loss_val s' \<noteq> None))"
    have loops: "case pair_loops u n d ?spc starts s1 of
           (Inl e, s') \<Rightarrow> e = ValueError
         | (Inr l', s') \<Rightarrow> I (length starts) l' s'"
      unfolding pair_loops_def
    proof (rule for_loop_rule[where I = I and Q = "\<lambda>e _. e = ValueError"])
      show "I 0 0 s1" by (simp add: I_def s1_def counters_set_def)
    next
      fix t a s' assume t: "t < length starts" and inv: "I t a s'"
      from inv have fr: "rest_of s' = rest_of s1" and c': "counters_set s'" by (simp_all add: I_def)
      note ff = rest_of_fields[OF fr]
      have d': "d_ij s' = Some (tensor2 n n ?f)" using ff by (simp add: s1_def)
      have ps: "samples_per_class (data (params s')) = ?spc" using ff by (simp add: s1_def)
      have lt: "starts ! t < n" using range_step_below[OF Inr] t by simp
      from block_outcome[OF draws d' c' _ lt, of d a] spos ps
      have "case for_loop [starts ! t..<starts ! t + ?spc] (loop_body u n d (starts ! t)) a s' of
           (Inl e, s'') \<Rightarrow> e = ValueError
         | (Inr l', s'') \<Rightarrow> rest_of s'' = rest_of s' \<and> counters_set s'' \<and> mb_loss_val s'' \<noteq> None"
        by simp
      then show "case for_loop [starts ! t..<starts ! t + ?spc] (loop_body u n d (starts ! t)) a s' of
           (Inl e, s'') \<Rightarrow> e = ValueError | (Inr a', s'') \<Rightarrow> I (Suc t) a' s''"
        unfolding I_def using fr by (auto split: prod.splits sum.splits)
    qed
    obtain r s2 where pl: "pair_loops u n d ?spc starts s1 = (r, s2)"
      by (cases "pair_loops u n d ?spc starts s1") auto
    show ?thesis
    proof (cases r)
      case (Inl e)
      then show ?thesis using loops pl Inr by (simp add: mb attempt_in_def)
    next
      case r: (Inr l)
      with loops pl ne have "counters_set s2" "mb_loss_val s2 \<noteq> None" by (auto simp: I_def)
      then obtain fn tp fp tn x where "false_neg s2 = Some fn" "true_pos s2 = Some tp"
        "false_pos s2 = Some fp" "true_neg s2 = Some tn" "mb_loss_val s2 = Some x"
        by (auto simp: counters_set_def)
      from finish_counters_ready[OF this npos]
      show ?thesis using pl r Inr by (simp add: mb attempt_in_def)
    qed
  qed
qed

lemma mb_loss_not_2d:
  assumes "length (shape pe) \<noteq> 2"
  shows "fst (mb_loss u (pc, pe) yc self) = Inl TypeError \<or>
     fst (mb_loss u (pc, pe) yc self) = Inl IndexError \<or>
     fst (mb_loss u (pc, pe) yc self) = Inl (AssertionError (Some (shape pe)))"
  using assms by (auto simp: mb_loss_def Let_def)

lemma mb_loss_empty:
  assumes "shape pe = [0, d]"
  shows "fst (mb_loss u (pc, pe) yc self) = Inl IndexError"
  using assms by (simp add: mb_loss_def Let_def)

subsection \<open>The concrete object\<close>

lemma example_shape:
  "shape (snd example_output) = [4, 1]" "wf_tensor (snd example_output)"
  by (simp_all add: example_output_def wf_tensor_def)

lemma example_spc: "samples_per_class (data (params example_self)) = 2"
  by (simp add: example_self_def example_params_def)

lemma example_draws_unit: "\<forall>k. 0 \<le> example_draws k \<and> example_draws k < 1"
  by (simp add: example_draws_def)

lemma example_init:
  "init example_model [3, 1, 2] ''cpu'' example_params [] = Inr example_self"
  by (simp add: init_def example_params_def example_self_def enumerate_dict_def
      eval_nat_numeral)

section \<open>The claims\<close>

text \<open>
  Claim C1. For every \<open>net_output\<close> and \<open>y_class\<close>, \<open>loss\<close> returns the sum of what
  \<open>l2_loss\<close> returns (the cross-entropy of the class logits against the class numbers) and
  what \<open>mb_loss\<close> returns on the same arguments, and nothing else; it raises what the first
  of them to raise does.
\<close>

theorem loss_is_sum_of_terms:
  "fst (loss u net_output y_class self) =
     (case fst (l2_loss net_output y_class self) of
        Inl e \<Rightarrow> Inl e
      | Inr a \<Rightarrow>
         (case fst (mb_loss u net_output y_class self) of
            Inl e \<Rightarrow> Inl e
          | Inr b \<Rightarrow> Inr (tadd a (Fin b))))
   \<and> fst (l2_loss net_output y_class self) =
       cross_entropy ignore_index (fst net_output) (classes_to_ids self y_class ignore_index)"
  by (simp add: loss_eq l2_loss_def attempt_in_def Let_def split: sum.splits)

theorem loss_is_sum_of_terms_witness:
  "fst (loss example_draws example_output [1, 1, 2, 2] example_self) =
     (case fst (l2_loss example_output [1, 1, 2, 2] example_self) of
        Inl e \<Rightarrow> Inl e
      | Inr a \<Rightarrow>
         (case fst (mb_loss example_draws example_output [1, 1, 2, 2] example_self) of
            Inl e \<Rightarrow> Inl e
          | Inr b \<Rightarrow> Inr (tadd a (Fin b))))
   \<and> fst (l2_loss example_output [1, 1, 2, 2] example_self) =
       cross_entropy ignore_index (fst example_output)
         (classes_to_ids example_self [1, 1, 2, 2] ignore_index)"
  using loss_is_sum_of_terms [of example_draws example_output "[1, 1, 2, 2]" example_self]
  by simp

text \<open>
  Claim C2. On a two-dimensional batch of \<open>n\<close> embeddings, with \<open>n\<close> a multiple of
  \<open>samples_per_class\<close> and greater than it (and \<open>samples_per_class \<ge> 2\<close>, which the
  constructor asserts), \<open>mb_loss\<close> returns \<open>1 / n\<close> times the sum over all samples \<open>i\<close> of
  \<open>max (alpha + (d_ij[i][j\<^sub>i] - beta)) 0 + max (alpha - (d_ij[i][k\<^sub>i] - beta)) 0\<close>, where
  \<open>j\<^sub>i\<close> and \<open>k\<^sub>i\<close> are the positive and the negative index that iteration \<open>i\<close> samples.
\<close>

theorem mb_loss_mean_of_hinges:
  assumes sh: "shape pe = [n, d]" "wf_tensor pe"
    and dv: "samples_per_class (data (params self)) dvd n"
    and gt: "samples_per_class (data (params self)) < n"
    and spc2: "2 \<le> samples_per_class (data (params self))"
    and draws: "\<forall>k. 0 \<le> u k \<and> u k < 1"
  shows "\<exists>D J K.
     d_ij (snd (mb_loss u (pc, pe) yc self)) = Some D \<and>
     (\<forall>i<n. \<forall>l. \<exists>l' row.
        sample_pair u n d (samples_per_class (data (params self))) (lambda_rev self)
          (mb_loss_alpha (model self)) (mb_loss_beta (model self)) D
          (i div samples_per_class (data (params self)) * samples_per_class (data (params self))) i l =
        Inr (l', row, J i, K i)) \<and>
     fst (mb_loss u (pc, pe) yc self) =
       Inr (1 / real n *
         (\<Sum>i\<leftarrow>[0..<n].
            max (mb_loss_alpha (model self) + (item2 D i (J i) - mb_loss_beta (model self))) 0 +
            max (mb_loss_alpha (model self) - (item2 D i (K i) - mb_loss_beta (model self))) 0))"
proof -
  let ?spc = "samples_per_class (data (params self))"
  obtain m where m: "n = m * ?spc" "2 \<le> m" using multiple_blocks[OF dv gt spc2] by blast
  have npos: "0 < n" using gt by simp
  let ?D = "tensor2 n n (dist_entry pe)"
  from mb_loss_run[OF sh m spc2 draws, of pc yc] obtain J K where
    pr: "\<And>i. i < n \<Longrightarrow> J i < i div ?spc * ?spc + ?spc \<and> K i < n \<and>
         (\<forall>l. sample_pair u n d ?spc (lambda_rev self)
               (mb_loss_alpha (model self)) (mb_loss_beta (model self)) ?D (i div ?spc * ?spc) i l =
            Inr (l + hinge_terms (mb_loss_alpha (model self)) (mb_loss_beta (model self)) (dist_entry pe) J K i,
                 map (dist_entry pe i) [0..<n], J i, K i))"
    and val: "fst (mb_loss u (pc, pe) yc self) =
       Inr ((\<Sum>i\<leftarrow>[0..<n]. hinge_terms (mb_loss_alpha (model self)) (mb_loss_beta (model self))
                (dist_entry pe) J K i) / real n)"
    by blast
  have Jn: "J i < n" if "i < n" for i
  proof -
    have "i div ?spc * ?spc + ?spc \<le> n" using block_end_le[of i m ?spc] that m(1) by simp
    then show ?thesis using pr[OF that] by simp
  qed
  have sumeq: "(\<Sum>i\<leftarrow>[0..<n]. hinge_terms (mb_loss_alpha (model self)) (mb_loss_beta (model self))
                (dist_entry pe) J K i) =
     (\<Sum>i\<leftarrow>[0..<n].
            max (mb_loss_alpha (model self) + (item2 ?D i (J i) - mb_loss_beta (model self))) 0 +
            max (mb_loss_alpha (model self) - (item2 ?D i (K i) - mb_loss_beta (model self))) 0)"
    by (rule arg_cong[where f = sum_list], rule map_cong)
       (use Jn pr in \<open>auto simp: hinge_terms_def item2_tensor2\<close>)
  show ?thesis
    using mb_loss_d_ij[OF sh npos, of u pc yc self] pr val
    by (intro exI[of _ ?D] exI[of _ J] exI[of _ K]) (simp add: sumeq)
qed

theorem mb_loss_mean_of_hinges_witness:
  "shape (snd example_output) = [4, 1] \<and> wf_tensor (snd example_output) \<and>
   samples_per_class (data (params example_self)) dvd 4 \<and>
   samples_per_class (data (params example_self)) < 4 \<and>
   2 \<le> samples_per_class (data (params example_self)) \<and>
   (\<forall>k. 0 \<le> example_draws k \<and> example_draws k < 1) \<and>
   (\<exists>D J K.
     d_ij (snd (mb_loss example_draws example_output [1, 1, 2, 2] example_self)) = Some D \<and>
     (\<forall>i<4. \<forall>l. \<exists>l' row.
        sample_pair example_draws 4 1 (samples_per_class (data (params example_self))) (lambda_rev example_self)
          (mb_loss_alpha (model example_self)) (mb_loss_beta (model example_self)) D
          (i div samples_per_class (data (params example_self)) * samples_per_class (data (params example_self))) i l =
        Inr (l', row, J i, K i)) \<and>
     fst (mb_loss example_draws example_output [1, 1, 2, 2] example_self) =
       Inr (1 / real 4 *
         (\<Sum>i\<leftarrow>[0..<4].
            max (mb_loss_alpha (model example_self) + (item2 D i (J i) - mb_loss_beta (model example_self))) 0 +
            max (mb_loss_alpha (model example_self) - (item2 D i (K i) - mb_loss_beta (model example_self))) 0)))"
proof -
  have h: "shape (snd example_output) = [4, 1]" "wf_tensor (snd example_output)"
    "samples_per_class (data (params example_self)) dvd 4"
    "samples_per_class (data (params example_self)) < 4"
    "2 \<le> samples_per_class (data (params example_self))"
    "\<forall>k. 0 \<le> example_draws k \<and> example_draws k < 1"
    using example_shape example_draws_unit by (simp_all add: example_spc)
  show ?thesis
    using h mb_loss_mean_of_hinges [OF h, of "fst example_output" "[1, 1, 2, 2]"]
    by simp
qed

text \<open>
  Claim C3. Under the same conditions (\<open>n\<close> a multiple of \<open>samples_per_class\<close> and greater
  than it, \<open>samples_per_class \<ge> 2\<close>), in every iteration \<open>(i_start, i)\<close> of the sampling loops
  the positive index \<open>j\<close> lies in the class block of \<open>i\<close> and differs from \<open>i\<close>, and the
  negative index \<open>k\<close> is below \<open>n\<close> and outside that block; the assertion \<open>j != i\<close> does not
  fail and no index is out of range.
\<close>

theorem sampled_pair_in_range:
  assumes sh: "shape pe = [n, d]" "wf_tensor pe"
    and dv: "samples_per_class (data (params self)) dvd n"
    and gt: "samples_per_class (data (params self)) < n"
    and spc2: "2 \<le> samples_per_class (data (params self))"
    and draws: "\<forall>k. 0 \<le> u k \<and> u k < 1"
  shows "\<exists>D starts.
     d_ij (snd (mb_loss u (pc, pe) yc self)) = Some D \<and>
     range_step 0 n (samples_per_class (data (params self))) = Inr starts \<and>
     (\<forall>i_start\<in>set starts. \<forall>i\<in>set [i_start..<i_start + samples_per_class (data (params self))].
        \<forall>l. \<exists>l' row j k.
          sample_pair u n d (samples_per_class (data (params self))) (lambda_rev self)
            (mb_loss_alpha (model self)) (mb_loss_beta (model self)) D i_start i l =
          Inr (l', row, j, k) \<and>
          i_start \<le> j \<and> j < i_start + samples_per_class (data (params self)) \<and> j \<noteq> i \<and>
          k < n \<and> \<not> (i_start \<le> k \<and> k < i_start + samples_per_class (data (params self)))) \<and>
     fst (mb_loss u (pc, pe) yc self) \<noteq> Inl (AssertionError None) \<and>
     fst (mb_loss u (pc, pe) yc self) \<noteq> Inl IndexError"
proof -
  let ?spc = "samples_per_class (data (params self))"
  obtain m where m: "n = m * ?spc" "2 \<le> m" using multiple_blocks[OF dv gt spc2] by blast
  have npos: "0 < n" using gt by simp
  have spos: "0 < ?spc" using spc2 by simp
  let ?D = "tensor2 n n (dist_entry pe)"
  from mb_loss_run[OF sh m spc2 draws, of pc yc] obtain J K where
    pr: "\<And>i. i < n \<Longrightarrow> i div ?spc * ?spc \<le> J i \<and> J i < i div ?spc * ?spc + ?spc \<and> J i \<noteq> i \<and>
         K i < n \<and> \<not> (i div ?spc * ?spc \<le> K i \<and> K i < i div ?spc * ?spc + ?spc) \<and>
         (\<forall>l. sample_pair u n d ?spc (lambda_rev self)
               (mb_loss_alpha (model self)) (mb_loss_beta (model self)) ?D (i div ?spc * ?spc) i l =
            Inr (l + hinge_terms (mb_loss_alpha (model self)) (mb_loss_beta (model self)) (dist_entry pe) J K i,
                 map (dist_entry pe i) [0..<n], J i, K i))"
    and val: "fst (mb_loss u (pc, pe) yc self) =
       Inr ((\<Sum>i\<leftarrow>[0..<n]. hinge_terms (mb_loss_alpha (model self)) (mb_loss_beta (model self))
                (dist_entry pe) J K i) / real n)"
    by blast
  have rs: "range_step 0 n ?spc = Inr (map (\<lambda>q. q * ?spc) [0..<m])"
    unfolding m(1) by (rule range_step_multiple[OF spos])
  have it: "\<exists>l' row j k.
          sample_pair u n d ?spc (lambda_rev self)
            (mb_loss_alpha (model self)) (mb_loss_beta (model self)) ?D i_start i l =
          Inr (l', row, j, k) \<and>
          i_start \<le> j \<and> j < i_start + ?spc \<and> j \<noteq> i \<and>
          k < n \<and> \<not> (i_start \<le> k \<and> k < i_start + ?spc)"
    if a: "i_start \<in> set (map (\<lambda>q. q * ?spc) [0..<m])" and b: "i \<in> set [i_start..<i_start + ?spc]"
    for i_start i l
  proof -
    from a obtain q where q: "q < m" "i_start = q * ?spc" by auto
    from b obtain t where t: "t < ?spc" "i = q * ?spc + t"
      using q(2) by (auto simp: le_iff_add)
    have iltn: "i < n" unfolding t(2) m(1) using t(1) q(1) by (rule_tac flat_index_less)
    have dv: "i div ?spc * ?spc = i_start" using t q(2) by simp
    from pr[OF iltn] show ?thesis unfolding dv by blast
  qed
  show ?thesis
    using mb_loss_d_ij[OF sh npos, of u pc yc self] rs it val
    by (intro exI[of _ ?D] exI[of _ "map (\<lambda>q. q * ?spc) [0..<m]"]) simp
qed

theorem sampled_pair_in_range_witness:
  "shape (snd example_output) = [4, 1] \<and> wf_tensor (snd example_output) \<and>
   samples_per_class (data (params example_self)) dvd 4 \<and>
   samples_per_class (data (params example_self)) < 4 \<and>
   2 \<le> samples_per_class (data (params example_self)) \<and>
   (\<forall>k. 0 \<le> example_draws k \<and> example_draws k < 1) \<and>
   (\<exists>D starts.
     d_ij (snd (mb_loss example_draws example_output [1, 1, 2, 2] example_self)) = Some D \<and>
     range_step 0 4 (samples_per_class (data (params example_self))) = Inr starts \<and>
     (\<forall>i_start\<in>set starts. \<forall>i\<in>set [i_start..<i_start + samples_per_class (data (params example_self))].
        \<forall>l. \<exists>l' row j k.
          sample_pair example_draws 4 1 (samples_per_class (data (params example_self))) (lambda_rev example_self)
            (mb_loss_alpha (model example_self)) (mb_loss_beta (model example_self)) D i_start i l =
          Inr (l', row, j, k) \<and>
          i_start \<le> j \<and> j < i_start + samples_per_class (data (params example_self)) \<and> j \<noteq> i \<and>
          k < 4 \<and> \<not> (i_start \<le> k \<and> k < i_start + samples_per_class (data (params example_self)))) \<and>
     fst (mb_loss example_draws example_output [1, 1, 2, 2] example_self) \<noteq> Inl (AssertionError None) \<and>
     fst (mb_loss example_draws example_output [1, 1, 2, 2] example_self) \<noteq> Inl IndexError)"
proof -
  have h: "shape (snd example_output) = [4, 1]" "wf_tensor (snd example_output)"
    "samples_per_class (data (params example_self)) dvd 4"
    "samples_per_class (data (params example_self)) < 4"
    "2 \<le> samples_per_class (data (params example_self))"
    "\<forall>k. 0 \<le> example_draws k \<and> example_draws k < 1"
    using example_shape example_draws_unit by (simp_all add: example_spc)
  show ?thesis
    using h sampled_pair_in_range [OF h, of "fst example_output" "[1, 1, 2, 2]"]
    by simp
qed

text \<open>
  Claim C4. The loss depends on the model object through \<open>mb_loss_alpha\<close> and
  \<open>mb_loss_beta\<close> only: on two objects that differ in nothing but their models, and whose
  models have the same two parameters, \<open>loss\<close> and \<open>mb_loss\<close> return the same (or raise the
  same) for the same \<open>net_output\<close>, \<open>y_class\<close> and random draws, they leave the two objects
  equal apart from the model, and the four counters read the same afterwards.
\<close>

theorem model_only_through_alpha_beta:
  fixes s :: "'a state" and t :: "'b state"
  assumes "same_apart_from_model s t"
    and "mb_loss_alpha (model s) = mb_loss_alpha (model t)"
    and "mb_loss_beta (model s) = mb_loss_beta (model t)"
  shows "fst (loss u net_output y_class s) = fst (loss u net_output y_class t) \<and>
     same_apart_from_model (snd (loss u net_output y_class s)) (snd (loss u net_output y_class t)) \<and>
     fst (mb_loss u net_output y_class s) = fst (mb_loss u net_output y_class t) \<and>
     same_apart_from_model (snd (mb_loss u net_output y_class s)) (snd (mb_loss u net_output y_class t)) \<and>
     fst (last_true_pos net_output y_class (snd (mb_loss u net_output y_class s))) =
       fst (last_true_pos net_output y_class (snd (mb_loss u net_output y_class t))) \<and>
     fst (last_true_neg net_output y_class (snd (mb_loss u net_output y_class s))) =
       fst (last_true_neg net_output y_class (snd (mb_loss u net_output y_class t))) \<and>
     fst (last_false_pos net_output y_class (snd (mb_loss u net_output y_class s))) =
       fst (last_false_pos net_output y_class (snd (mb_loss u net_output y_class t))) \<and>
     fst (last_false_neg net_output y_class (snd (mb_loss u net_output y_class s))) =
       fst (last_false_neg net_output y_class (snd (mb_loss u net_output y_class t)))"
  using loss_same_apart[OF assms, of u net_output y_class]
    mb_loss_same_apart[OF assms, of u net_output y_class]
  by (simp add: same_apart_from_model_def last_true_pos_def last_true_neg_def
      last_false_pos_def last_false_neg_def get_attr_def)

theorem model_only_through_alpha_beta_witness:
  "same_apart_from_model example_self example_self_other \<and>
   mb_loss_alpha (model example_self) = mb_loss_alpha (model example_self_other) \<and>
   mb_loss_beta (model example_self) = mb_loss_beta (model example_self_other) \<and>
   fst (loss example_draws example_output [1, 1, 2, 2] example_self) =
     fst (loss example_draws example_output [1, 1, 2, 2] example_self_other) \<and>
   fst (mb_loss example_draws example_output [1, 1, 2, 2] example_self) =
     fst (mb_loss example_draws example_output [1, 1, 2, 2] example_self_other) \<and>
   fst (last_true_pos example_output [1, 1, 2, 2]
          (snd (mb_loss example_draws example_output [1, 1, 2, 2] example_self))) =
     fst (last_true_pos example_output [1, 1, 2, 2]
          (snd (mb_loss example_draws example_output [1, 1, 2, 2] example_self_other)))"
proof -
  have h: "same_apart_from_model example_self example_self_other"
    "mb_loss_alpha (model example_self) = mb_loss_alpha (model example_self_other)"
    "mb_loss_beta (model example_self) = mb_loss_beta (model example_self_other)"
    by (simp_all add: same_apart_from_model_def example_self_def example_self_other_def
        example_model_def)
  show ?thesis
    using h model_only_through_alpha_beta [OF h, of example_draws example_output "[1, 1, 2, 2]"]
    by simp
qed

text \<open>
  Claim C5. Nothing that the object stores between calls reaches the value of \<open>loss\<close>:
  for the same \<open>net_output\<close>, \<open>y_class\<close> and random draws, \<open>loss\<close> returns the same (or
  raises the same) after any sequence of earlier calls of the methods of the object, calls
  of \<open>loss\<close> itself included.
\<close>

theorem loss_independent_of_history:
  "fst (loss u net_output y_class (perform_all cs self)) = fst (loss u net_output y_class self)"
  by (rule loss_agree) (rule kept_same_settings, rule perform_all_kept)

theorem loss_independent_of_history_witness:
  "fst (loss example_draws example_output [1, 1, 2, 2]
          (perform_all
             [Call_mb_loss example_draws example_output [3, 3, 1, 1],
              Call_set_timer (ExternalTimer 1),
              Call_loss example_draws example_output [1, 1, 2, 2]] example_self)) =
   fst (loss example_draws example_output [1, 1, 2, 2] example_self)"
  using loss_independent_of_history [of example_draws example_output "[1, 1, 2, 2]"
      "[Call_mb_loss example_draws example_output [3, 3, 1, 1],
        Call_set_timer (ExternalTimer 1),
        Call_loss example_draws example_output [1, 1, 2, 2]]" example_self]
  by simp

text \<open>
  Claim C6. \<open>mb_loss\<close> requires its embeddings to be one two-dimensional batch: it
  returns only on a tensor of two dimensions. On such a (well-formed) tensor the shape
  assertion does not fail, the matrix of squared distances is computed without error, and
  no index is out of range afterwards: a batch with at least one row makes \<open>mb_loss\<close>
  return or raise \<open>ValueError\<close> (from \<open>range\<close> or \<open>np.random.choice\<close>), and the only
  \<open>IndexError\<close> is that of \<open>pred_embeddings[0]\<close> on a batch without rows, before the
  distances are computed.
\<close>

theorem two_dimensional_batch:
  assumes draws: "\<forall>k. 0 \<le> u k \<and> u k < 1" and wf: "wf_tensor pe"
  shows "(\<forall>v. fst (mb_loss u (pc, pe) yc self) = Inr v \<longrightarrow> length (shape pe) = 2) \<and>
     (length (shape pe) = 2 \<longrightarrow>
        (\<forall>sh. fst (mb_loss u (pc, pe) yc self) \<noteq> Inl (AssertionError (Some sh))) \<and>
        (\<exists>sq. squared_distances pe = Inr sq \<and> shape sq = [hd (shape pe), hd (shape pe)]) \<and>
        (fst (mb_loss u (pc, pe) yc self) = Inl IndexError \<longleftrightarrow> hd (shape pe) = 0) \<and>
        (0 < hd (shape pe) \<longrightarrow>
           (\<exists>v. fst (mb_loss u (pc, pe) yc self) = Inr v) \<or>
           fst (mb_loss u (pc, pe) yc self) = Inl ValueError))"
proof (intro conjI impI allI)
  fix v assume "fst (mb_loss u (pc, pe) yc self) = Inr v"
  then show "length (shape pe) = 2"
    using mb_loss_not_2d[of pe u pc yc self] by auto
next
  assume two: "length (shape pe) = 2"
  then obtain n d where sh: "shape pe = [n, d]"
    by (cases "shape pe"; cases "tl (shape pe)") auto
  have out: "(\<exists>v. fst (mb_loss u (pc, pe) yc self) = Inr v) \<or>
     fst (mb_loss u (pc, pe) yc self) = Inl ValueError" if "0 < n"
    using mb_loss_outcome[OF sh wf that draws] .
  have emp: "fst (mb_loss u (pc, pe) yc self) = Inl IndexError" if "n = 0"
    using mb_loss_empty[of pe d] sh that by simp
  show "\<exists>sq. squared_distances pe = Inr sq \<and> shape sq = [hd (shape pe), hd (shape pe)]"
    using squared_distances_2d[OF sh wf] sh by simp
  show "fst (mb_loss u (pc, pe) yc self) = Inl IndexError \<longleftrightarrow> hd (shape pe) = 0"
    using out emp sh by (cases "n = 0") auto
  show "(\<exists>v. fst (mb_loss u (pc, pe) yc self) = Inr v) \<or>
           fst (mb_loss u (pc, pe) yc self) = Inl ValueError" if "0 < hd (shape pe)"
    using out that sh by simp
  fix sh' show "fst (mb_loss u (pc, pe) yc self) \<noteq> Inl (AssertionError (Some sh'))"
    using out emp by (cases "n = 0") auto
qed

theorem two_dimensional_batch_witness:
  "(\<forall>k. 0 \<le> example_draws k \<and> example_draws k < 1) \<and> wf_tensor (snd example_output) \<and>
   length (shape (snd example_output)) = 2 \<and>
   (\<forall>sh. fst (mb_loss example_draws example_output [1, 1, 2, 2] example_self) \<noteq>
      Inl (AssertionError (Some sh))) \<and>
   (\<exists>sq. squared_distances (snd example_output) = Inr sq \<and> shape sq = [4, 4]) \<and>
   fst (mb_loss example_draws example_output [1, 1, 2, 2] example_self) \<noteq> Inl IndexError"
proof -
  have h: "\<forall>k. 0 \<le> example_draws k \<and> example_draws k < 1" "wf_tensor (snd example_output)"
    using example_draws_unit example_shape by simp_all
  have two: "length (shape (snd example_output)) = 2" "hd (shape (snd example_output)) = 4"
    by (simp_all add: example_shape)
  show ?thesis
    using h two two_dimensional_batch [OF h, of "fst example_output" "[1, 1, 2, 2]" example_self]
    by simp
qed




text \<open>
  Claim C8 says that \<open>classes_to_ids\<close> maps every label that is not a member of the class
  set to \<open>ignore_index\<close>. The label is looked up after \<open>int\<close>, which drops its fractional
  part: with the classes \<open>{3, 1, 2}\<close> the label \<open>1.5\<close>, not a member, goes to the rank 0 of
  the class 1 and not to \<open>ignore_index\<close>.
\<close>

theorem fractional_label_counterexample:
  "init example_model [3, 1, 2] ''cpu'' example_params [] = Inr example_self \<and>
   (3 / 2 :: real) \<notin> set (map of_int [3, 1, 2]) \<and>
   classes_to_ids example_self [3 / 2] ignore_index = [0] \<and>
   classes_to_ids example_self [3 / 2] ignore_index \<noteq> [ignore_index]"
  by (simp add: init_def example_params_def example_self_def enumerate_dict_def
      eval_nat_numeral classes_to_ids_def py_int_def ignore_index_def)

text \<open>
  Claim C8, amended. For an object constructed from a set of classes, at any later time:
  \<open>classes_to_ids\<close> maps a label whose integer part (\<open>int\<close> of it, the number without its
  fractional part) is in the set to the rank of that integer in the sorted list of
  classes, so a member of the set to its own rank, and any other label to \<open>ignore_index\<close>,
  which \<open>l2_loss\<close> takes as \<open>-100\<close>. On logits of shape \<open>[n, c]\<close>, \<open>l2_loss\<close> raises when
  the number of labels is not \<open>n\<close>, when there is no label at all, and when the rank of a
  known label is not below \<open>c\<close>; otherwise it returns the mean of the cross-entropy terms
  of the samples with a known label, \<open>NaN\<close> when there is none: a sample whose label is
  not known adds nothing to the sum and does not count in the mean.
\<close>

theorem labels_to_ranks:
  assumes "init mdl cls dev ps out = Inr self0" and "distinct cls"
    and "self = perform_all calls self0"
  shows "\<exists>rank.
     (\<forall>y. \<forall>c\<in>set cls. int_part y c \<longrightarrow> rank y < length cls \<and> sort cls ! rank y = c) \<and>
     (\<forall>ign ys. classes_to_ids self ys ign =
        map (\<lambda>y. if known_label cls y then int (rank y) else ign) ys) \<and>
     (\<forall>c\<in>set cls. classes_to_ids self [of_int c] ignore_index = [int (rank (of_int c))] \<and>
        sort cls ! rank (of_int c) = c) \<and>
     (\<forall>y. \<not> known_label cls y \<longrightarrow> classes_to_ids self [y] ignore_index = [- 100]) \<and>
     (\<forall>pc pe yc n c. shape pc = [n, c] \<longrightarrow>
        fst (l2_loss (pc, pe) yc self) =
          (let known = filter (\<lambda>i. known_label cls (yc ! i)) [0..<n]
           in if length yc \<noteq> n then Inl ValueError
              else if yc = [] then Inl RuntimeError
              else if \<exists>i\<in>set known. c \<le> rank (yc ! i) then Inl IndexError
              else Inr (if known = [] then NaN
                        else Fin ((\<Sum>i\<leftarrow>known. nll pc i (rank (yc ! i))) / real (length known)))))"
proof -
  define rank where "rank = (\<lambda>y. the (enumerate_dict (sort cls) (py_int y)))"
  have cd: "classes_dict self = enumerate_dict (sort cls)"
    using init_classes_dict[OF assms(1)] kept_classes_dict[OF perform_all_kept[of calls self0]]
    by (simp add: assms(3))
  have inn: "\<exists>r. enumerate_dict (sort cls) c = Some r \<and> r < length cls \<and> sort cls ! r = c"
    if "c \<in> set cls" for c
    using enumerate_dict_in[of "sort cls" c] assms(2) that by simp
  have out: "enumerate_dict (sort cls) c = None" if "c \<notin> set cls" for c
    using enumerate_dict_notin[of c "sort cls"] that by simp
  have kn: "known_label cls y \<longleftrightarrow> py_int y \<in> set cls" for y
    by (auto simp: known_label_def int_part_py_int)
  have r1: "\<forall>y. \<forall>c\<in>set cls. int_part y c \<longrightarrow> rank y < length cls \<and> sort cls ! rank y = c"
  proof (intro allI ballI impI)
    fix y c assume c: "c \<in> set cls" and "int_part y c"
    then have p: "py_int y = c" by (simp add: int_part_py_int)
    from inn[OF c] obtain r where "enumerate_dict (sort cls) c = Some r" "r < length cls"
      "sort cls ! r = c" by blast
    then show "rank y < length cls \<and> sort cls ! rank y = c" by (simp add: rank_def p)
  qed
  define g where "g = (\<lambda>ign y. case classes_dict self (py_int y) of None \<Rightarrow> ign | Some i \<Rightarrow> int i)"
  have gv: "g ign y = (if known_label cls y then int (rank y) else ign)" for ign y
  proof (cases "py_int y \<in> set cls")
    case True
    from inn[OF True] show ?thesis using True by (auto simp: g_def cd rank_def kn)
  next
    case False
    then show ?thesis by (simp add: g_def cd out kn)
  qed
  have ids: "classes_to_ids self ys ign = map (g ign) ys" for ys ign
    by (simp add: classes_to_ids_def g_def)
  have r2: "\<forall>ign ys. classes_to_ids self ys ign =
        map (\<lambda>y. if known_label cls y then int (rank y) else ign) ys"
    by (simp add: ids gv)
  have self_part: "int_part (of_int c) c" for c
    by (simp add: int_part_def) linarith
  have r3: "\<forall>c\<in>set cls. classes_to_ids self [of_int c] ignore_index = [int (rank (of_int c))] \<and>
        sort cls ! rank (of_int c) = c"
  proof
    fix c assume c: "c \<in> set cls"
    have "known_label cls (of_int c)" using c self_part[of c] by (auto simp: known_label_def)
    then show "classes_to_ids self [of_int c] ignore_index = [int (rank (of_int c))] \<and>
        sort cls ! rank (of_int c) = c"
      using r1 c self_part[of c] by (simp add: ids gv)
  qed
  have r4: "\<forall>y. \<not> known_label cls y \<longrightarrow> classes_to_ids self [y] ignore_index = [- 100]"
    by (simp add: ids gv ignore_index_def)
  have r5: "fst (l2_loss (pc, pe) yc self) =
          (let known = filter (\<lambda>i. known_label cls (yc ! i)) [0..<n]
           in if length yc \<noteq> n then Inl ValueError
              else if yc = [] then Inl RuntimeError
              else if \<exists>i\<in>set known. c \<le> rank (yc ! i) then Inl IndexError
              else Inr (if known = [] then NaN
                        else Fin ((\<Sum>i\<leftarrow>known. nll pc i (rank (yc ! i))) / real (length known))))"
    if h: "shape pc = [n, c]" for pc pe yc n c
  proof -
    have known: "g ignore_index y \<noteq> ignore_index \<longleftrightarrow> known_label cls y" for y
      by (auto simp: gv ignore_index_def)
    have bad: "(\<exists>i<n. g ignore_index (yc ! i) \<noteq> ignore_index \<and>
          (g ignore_index (yc ! i) < 0 \<or> int c \<le> g ignore_index (yc ! i))) \<longleftrightarrow>
        (\<exists>i\<in>set (filter (\<lambda>i. known_label cls (yc ! i)) [0..<n]). c \<le> rank (yc ! i))"
      unfolding known by (auto simp: gv)
    have sumeq: "(\<Sum>i\<leftarrow>filter (\<lambda>i. known_label cls (yc ! i)) [0..<n]. nll pc i (nat (g ignore_index (yc ! i)))) =
        (\<Sum>i\<leftarrow>filter (\<lambda>i. known_label cls (yc ! i)) [0..<n]. nll pc i (rank (yc ! i)))"
      by (rule arg_cong[where f = sum_list], rule map_cong) (auto simp: gv)
    have "fst (l2_loss (pc, pe) yc self) = cross_entropy ignore_index pc (map (g ignore_index) yc)"
      by (simp add: l2_loss_def attempt_in_def Let_def ids split: sum.splits)
    also note cross_entropy_cases[OF h, of ignore_index "g ignore_index" yc]
    finally have e: "fst (l2_loss (pc, pe) yc self) =
       (if length yc \<noteq> n then Inl ValueError
        else if yc = [] then Inl RuntimeError
        else if \<exists>i<n. g ignore_index (yc ! i) \<noteq> ignore_index \<and>
          (g ignore_index (yc ! i) < 0 \<or> int c \<le> g ignore_index (yc ! i)) then Inl IndexError
        else Inr (let known = filter (\<lambda>i. g ignore_index (yc ! i) \<noteq> ignore_index) [0..<n]
                in if known = [] then NaN
                   else Fin ((\<Sum>i\<leftarrow>known. nll pc i (nat (g ignore_index (yc ! i)))) / real (length known))))" .
    have bad': "(\<exists>i<n. known_label cls (yc ! i) \<and>
          (g ignore_index (yc ! i) < 0 \<or> int c \<le> g ignore_index (yc ! i))) \<longleftrightarrow>
        (\<exists>i\<in>set (filter (\<lambda>i. known_label cls (yc ! i)) [0..<n]). c \<le> rank (yc ! i))"
      using bad unfolding known .
    show ?thesis unfolding e known bad' Let_def sumeq by (rule refl)
  qed
  show ?thesis
    using r1 r2 r3 r4 r5 by (intro exI[of _ rank]) blast
qed

theorem labels_to_ranks_witness:
  "init example_model [3, 1, 2] ''cpu'' example_params [] = Inr example_self \<and>
   distinct [3, 1, 2 :: int] \<and>
   example_self = perform_all [] example_self \<and>
   (\<exists>rank.
     (\<forall>y. \<forall>c\<in>set [3, 1, 2]. int_part y c \<longrightarrow> rank y < length [3, 1, 2 :: int] \<and> sort [3, 1, 2] ! rank y = c) \<and>
     (\<forall>ign ys. classes_to_ids example_self ys ign =
        map (\<lambda>y. if known_label [3, 1, 2] y then int (rank y) else ign) ys) \<and>
     (\<forall>c\<in>set [3, 1, 2]. classes_to_ids example_self [of_int c] ignore_index = [int (rank (of_int c))] \<and>
        sort [3, 1, 2] ! rank (of_int c) = c) \<and>
     (\<forall>y. \<not> known_label [3, 1, 2] y \<longrightarrow> classes_to_ids example_self [y] ignore_index = [- 100]) \<and>
     (\<forall>pc pe yc n c. shape pc = [n, c] \<longrightarrow>
        fst (l2_loss (pc, pe) yc example_self) =
          (let known = filter (\<lambda>i. known_label [3, 1, 2] (yc ! i)) [0..<n]
           in if length yc \<noteq> n then Inl ValueError
              else if yc = [] then Inl RuntimeError
              else if \<exists>i\<in>set known. c \<le> rank (yc ! i) then Inl IndexError
              else Inr (if known = [] then NaN
                        else Fin ((\<Sum>i\<leftarrow>known. nll pc i (rank (yc ! i))) / real (length known))))))"
proof -
  have h: "init example_model [3, 1, 2] ''cpu'' example_params [] = Inr example_self"
    "distinct [3, 1, 2 :: int]" "example_self = perform_all [] example_self"
    by (simp_all add: perform_all_def init_def example_params_def example_self_def
        enumerate_dict_def eval_nat_numeral)
  show ?thesis
    using h labels_to_ranks [OF h] by simp
qed

text \<open>
  Claim C9. After a call of \<open>mb_loss\<close> that returns, on a batch of \<open>n\<close> embeddings with \<open>n\<close>
  a positive multiple of \<open>samples_per_class\<close>, the stored counters satisfy
  \<open>true_pos + false_neg = samples_per_class\<close> and
  \<open>true_neg + false_pos = n - samples_per_class\<close>.
\<close>

theorem counters_partition:
  assumes sh: "shape pe = [n, d]" "wf_tensor pe"
    and mult: "n = m * samples_per_class (data (params self))" "0 < m"
    and ok: "fst (mb_loss u (pc, pe) yc self) = Inr v"
  shows "\<exists>tp fn tn fp.
     fst (last_true_pos (pc, pe) yc (snd (mb_loss u (pc, pe) yc self))) = Inr tp \<and>
     fst (last_false_neg (pc, pe) yc (snd (mb_loss u (pc, pe) yc self))) = Inr fn \<and>
     fst (last_true_neg (pc, pe) yc (snd (mb_loss u (pc, pe) yc self))) = Inr tn \<and>
     fst (last_false_pos (pc, pe) yc (snd (mb_loss u (pc, pe) yc self))) = Inr fp \<and>
     tp + fn = real (samples_per_class (data (params self))) \<and>
     tn + fp = real (n - samples_per_class (data (params self)))"
proof -
  let ?spc = "samples_per_class (data (params self))"
  have npos: "0 < n"
  proof (rule ccontr)
    assume "\<not> 0 < n"
    then have "fst (mb_loss u (pc, pe) yc self) = Inl IndexError"
      using sh by (simp add: mb_loss_def)
    with ok show False by simp
  qed
  then have spos: "0 < ?spc" using mult by (cases ?spc) auto
  define s1 where "s1 = self\<lparr>true_pos := Some 0, true_neg := Some 0, false_pos := Some 0,
      false_neg := Some 0, d_ij := Some (tensor2 n n (dist_entry pe))\<rparr>"
  have rs: "range_step 0 n ?spc = Inr (map (\<lambda>q. q * ?spc) [0..<m])"
    unfolding mult(1) by (rule range_step_multiple[OF spos])
  obtain r s2 where pl: "pair_loops u n d ?spc (map (\<lambda>q. q * ?spc) [0..<m]) s1 = (r, s2)"
    by (cases "pair_loops u n d ?spc (map (\<lambda>q. q * ?spc) [0..<m]) s1") auto
  have mb: "mb_loss u (pc, pe) yc self =
      (case r of Inl e \<Rightarrow> (Inl e, s2) | Inr l \<Rightarrow> finish_counters n s2)"
    unfolding mb_loss_2d[OF sh npos] Let_def s1_def[symmetric] rs
    by (simp add: attempt_in_def pl split: sum.splits)
  obtain l where r: "r = Inr l" using ok mb by (cases r) auto
  define I where "I = (\<lambda>t (a::real) s. rest_of s = rest_of s1 \<and>
      (\<exists>fn tp fp tn. false_neg s = Some fn \<and> true_pos s = Some tp \<and>
         false_pos s = Some fp \<and> true_neg s = Some tn \<and>
         tp + fn = real t * real ?spc \<and> tn + fp = real t * real (n - ?spc) \<and>
         (0 < t \<longrightarrow> mb_loss_val s = Some (a / real n))))"
  have "case pair_loops u n d ?spc (map (\<lambda>q. q * ?spc) [0..<m]) s1 of
           (Inl e, s') \<Rightarrow> True | (Inr a', s') \<Rightarrow> I (m * ?spc) a' s'"
  proof (rule pair_loops_rule[OF spos, where I = I and Q = "\<lambda>_ _. True"])
    show "I 0 0 s1" by (simp add: I_def s1_def)
  next
    fix i a s assume i: "i < m * ?spc" and inv: "I i a s"
    from inv have fr: "rest_of s = rest_of s1" by (simp add: I_def)
    note ff = rest_of_fields[OF fr]
    have ds: "d_ij s = Some (tensor2 n n (dist_entry pe))" and ps: "params s = params self"
      using ff by (simp_all add: s1_def)
    from inv obtain fn tp fp tn where c: "false_neg s = Some fn" "true_pos s = Some tp"
         "false_pos s = Some fp" "true_neg s = Some tn"
         and sums: "tp + fn = real i * real ?spc" "tn + fp = real i * real (n - ?spc)"
      by (auto simp: I_def)
    have full: "i div ?spc * ?spc + samples_per_class (data (params s)) \<le> n"
      using block_end_le[OF i] by (simp add: ps mult(1))
    show "case loop_body u n d (i div ?spc * ?spc) i a s of
         (Inl e, s') \<Rightarrow> True | (Inr a', s') \<Rightarrow> I (Suc i) a' s'"
    proof (cases "loop_body u n d (i div ?spc * ?spc) i a s")
      case (Pair r' s')
      show ?thesis
      proof (cases r')
        case (Inl e) then show ?thesis using Pair by simp
      next
        case (Inr a')
        from loop_body_counts[OF ds c full, where u = u and edim = d and l = a and l' = a'
            and s' = s' and i = i] Pair Inr
        obtain fn' tp' fp' tn' where c': "false_neg s' = Some fn'" "true_pos s' = Some tp'"
          "false_pos s' = Some fp'" "true_neg s' = Some tn'"
          "tp' + fn' = tp + fn + real ?spc" "tn' + fp' = tn + fp + real (n - ?spc)"
          "mb_loss_val s' = Some (a' / real n)"
          by (auto simp: ps)
        have fr': "rest_of s' = rest_of s1"
          using loop_body_frame[of u n d "i div ?spc * ?spc" i a s] Pair fr by simp
        have "I (Suc i) a' s'"
          unfolding I_def using c' sums fr' by (simp add: algebra_simps)
        then show ?thesis using Pair Inr by simp
      qed
    qed
  qed
  with pl r have inv: "I n l s2" by (simp add: mult(1))
  then obtain fn tp fp tn where c: "false_neg s2 = Some fn" "true_pos s2 = Some tp"
         "false_pos s2 = Some fp" "true_neg s2 = Some tn"
         and sums: "tp + fn = real n * real ?spc" "tn + fp = real n * real (n - ?spc)"
         and mv: "mb_loss_val s2 = Some (l / real n)"
    using npos by (auto simp: I_def)
  have fin: "mb_loss u (pc, pe) yc self = (Inr (l / real n), s2\<lparr>true_pos := Some (tp / real n),
      true_neg := Some (tn / real n), false_pos := Some (fp / real n), false_neg := Some (fn / real n)\<rparr>)"
    using mb r finish_counters_ready[OF c mv npos] by simp
  have e1: "tp / real n + fn / real n = real ?spc"
    using sums(1) npos by (simp add: add_divide_distrib[symmetric])
  have e2: "tn / real n + fp / real n = real (n - ?spc)"
    using sums(2) npos by (simp add: add_divide_distrib[symmetric])
  show ?thesis
    using e1 e2
    by (intro exI[of _ "tp / real n"] exI[of _ "fn / real n"] exI[of _ "tn / real n"]
        exI[of _ "fp / real n"])
       (simp add: fin last_true_pos_def last_false_neg_def last_true_neg_def last_false_pos_def
         get_attr_def read_attr_def)
qed

theorem counters_partition_witness:
  "shape (snd example_output) = [4, 1] \<and> wf_tensor (snd example_output) \<and>
   4 = 2 * samples_per_class (data (params example_self)) \<and> (0::nat) < 2 \<and>
   (\<exists>v. fst (mb_loss example_draws example_output [1, 1, 2, 2] example_self) = Inr v) \<and>
   (\<exists>tp fn tn fp.
     fst (last_true_pos example_output [1, 1, 2, 2] (snd (mb_loss example_draws example_output [1, 1, 2, 2] example_self))) = Inr tp \<and>
     fst (last_false_neg example_output [1, 1, 2, 2] (snd (mb_loss example_draws example_output [1, 1, 2, 2] example_self))) = Inr fn \<and>
     fst (last_true_neg example_output [1, 1, 2, 2] (snd (mb_loss example_draws example_output [1, 1, 2, 2] example_self))) = Inr tn \<and>
     fst (last_false_pos example_output [1, 1, 2, 2] (snd (mb_loss example_draws example_output [1, 1, 2, 2] example_self))) = Inr fp \<and>
     tp + fn = real (samples_per_class (data (params example_self))) \<and>
     tn + fp = real (4 - samples_per_class (data (params example_self))))"
proof -
  have h: "shape (snd example_output) = [4, 1]" "wf_tensor (snd example_output)"
    "4 = 2 * samples_per_class (data (params example_self))" "(0::nat) < 2"
    using example_shape by (simp_all add: example_spc)
  have "\<exists>v. fst (mb_loss example_draws (fst example_output, snd example_output) [1, 1, 2, 2]
      example_self) = Inr v"
    by (rule mb_loss_succeeds [OF example_shape _ _ _ example_draws_unit])
       (simp_all add: example_spc)
  then obtain v where v: "fst (mb_loss example_draws (fst example_output, snd example_output)
      [1, 1, 2, 2] example_self) = Inr v" ..
  show ?thesis
    using h v counters_partition [OF h v] by auto
qed

text \<open>
  Claim C10. On a batch of \<open>n \<ge> 1\<close> embeddings \<open>e\<^sub>0, \<dots>, e\<^sub>n\<^sub>-\<^sub>1\<close> (a well-formed
  two-dimensional tensor), \<open>mb_loss\<close> stores in \<open>d_ij\<close> an \<open>n \<times> n\<close> matrix whose entry
  \<open>(i, j)\<close> is \<open>sqrt (max (|e\<^sub>i|\<^sup>2 + |e\<^sub>j|\<^sup>2 - 2 <e\<^sub>i, e\<^sub>j>) 0 + 1e-8)\<close>; the matrix is symmetric
  and every entry, the diagonal included, is positive and at least \<open>sqrt 1e-8\<close>.
\<close>

theorem distance_matrix_entries:
  assumes "shape pe = [n, d]" "wf_tensor pe" "0 < n"
  shows "\<exists>D. d_ij (snd (mb_loss u (pc, pe) yc self)) = Some D \<and> shape D = [n, n] \<and>
     (\<forall>i<n. \<forall>j<n. \<exists>e_i e_j. get_row pe i = Inr e_i \<and> get_row pe j = Inr e_j \<and>
        get_item2 D i j = Inr (sqrt (max (sq_norm e_i + sq_norm e_j - 2 * inner_prod e_i e_j) 0 + 1 / 10 ^ 8)) \<and>
        get_item2 D i j = get_item2 D j i \<and>
        sqrt (1 / 10 ^ 8) \<le> item2 D i j \<and> 0 < item2 D i j)"
proof -
  let ?D = "tensor2 n n (dist_entry pe)"
  have "d_ij (rest_of (snd (mb_loss u (pc, pe) yc self))) = Some ?D"
    unfolding mb_loss_rest[OF assms] by (simp add: rest_of_def)
  then have D: "d_ij (snd (mb_loss u (pc, pe) yc self)) = Some ?D" by (simp add: d_ij_rest_of)
  have ent: "\<exists>e_i e_j. get_row pe i = Inr e_i \<and> get_row pe j = Inr e_j \<and>
        get_item2 ?D i j = Inr (sqrt (max (sq_norm e_i + sq_norm e_j - 2 * inner_prod e_i e_j) 0 + 1 / 10 ^ 8)) \<and>
        get_item2 ?D i j = get_item2 ?D j i \<and>
        sqrt (1 / 10 ^ 8) \<le> item2 ?D i j \<and> 0 < item2 ?D i j" if ij: "i < n" "j < n" for i j
  proof -
    have sym: "dist_entry pe i j = dist_entry pe j i"
      by (simp add: dist_entry_def row_dot_def mult.commute add.commute)
    have lb: "sqrt (1 / 10 ^ 8) \<le> dist_entry pe i j"
      unfolding dist_entry_def by (rule real_sqrt_le_mono) simp
    have "0 < sqrt (1 / 10 ^ 8 :: real)" by simp
    with lb have pos: "0 < dist_entry pe i j" by linarith
    have val: "dist_entry pe i j = sqrt (max (sq_norm (map (item2 pe i) [0..<d]) + sq_norm (map (item2 pe j) [0..<d])
           - 2 * inner_prod (map (item2 pe i) [0..<d]) (map (item2 pe j) [0..<d])) 0 + 1 / 10 ^ 8)"
      using assms(1) by (simp add: dist_entry_def row_norm2_def row_dot_def sq_norm_row inner_prod_row)
    show ?thesis
      using ij sym lb pos val
      by (simp add: get_row_wf[OF assms(1,2)] get_item2_tensor2 item2_tensor2)
  qed
  show ?thesis
    using D ent by (intro exI[of _ ?D]) simp
qed

theorem distance_matrix_entries_witness:
  "\<exists>D. d_ij (snd (mb_loss example_draws example_output [1, 1, 2, 2] example_self)) = Some D \<and>
     shape D = [4, 4] \<and>
     (\<forall>i<4. \<forall>j<4. \<exists>e_i e_j.
        get_row (snd example_output) i = Inr e_i \<and> get_row (snd example_output) j = Inr e_j \<and>
        get_item2 D i j =
          Inr (sqrt (max (sq_norm e_i + sq_norm e_j - 2 * inner_prod e_i e_j) 0 + 1 / 10 ^ 8)) \<and>
        get_item2 D i j = get_item2 D j i \<and>
        sqrt (1 / 10 ^ 8) \<le> item2 D i j \<and> 0 < item2 D i j)"
  using distance_matrix_entries [of "snd example_output" 4 1 example_draws "fst example_output"
      "[1, 1, 2, 2]" example_self]
  by (simp add: example_output_def wf_tensor_def)

end
